theory Spec2Isabelle
  imports Main "HOL-Library.List_Lexorder"
begin

section \<open>The store: blocks owned by \<open>ArrayPtr\<close>, raw pointers, failures\<close>

text \<open>
  \<open>simple_vector.h\<close> keeps its elements in a block obtained from \<open>ArrayPtr\<close> and
  works on it through raw pointers (\<open>Type*\<close> iterators). The model keeps an explicit
  store of blocks, so that which vector owns which block, and whether two vectors share
  one, is visible in the state.

  \<^item> An address is a natural number; address \<open>0\<close> is \<open>nullptr\<close>.
  \<^item> A pointer to an element is a pair: the address of the block and the offset in it.
  \<^item> \<open>size_t\<close> is modelled as \<open>nat\<close>: the only arithmetic on sizes is \<open>2 * size_\<close>,
    \<open>++size_\<close> and \<open>--size_\<close> (guarded), and a block of \<open>2^63\<close> elements cannot be
    allocated, so no operation on an allocated size wraps around. Allocation failure
    (\<open>std::bad_alloc\<close>) is not modelled.
  \<^item> Elements are values of a type \<open>'a\<close>; \<open>Type{}\<close> is a parameter \<open>d\<close> of the
    operations that need it. Moving an element (\<open>std::move\<close>) stores its value at the
    destination and leaves the value at the source, as for \<open>int\<close>.
\<close>

datatype failure =
    out_of_range        \<comment> \<open>\<open>throw std::out_of_range\<close>\<close>
  | assertion_failed    \<comment> \<open>a failed \<open>assert\<close>\<close>
  | invalid_access      \<comment> \<open>undefined behaviour: access outside an allocated block, bad \<open>delete[]\<close>\<close>

type_synonym addr = nat
type_synonym pointer = "addr \<times> nat"

record 'a heap =
  blocks :: "addr \<Rightarrow> 'a list option"
  brk :: addr

definition empty_heap :: "'a heap" where
  "empty_heap = \<lparr>blocks = (\<lambda>p. None), brk = 1\<rparr>"

definition block :: "'a heap \<Rightarrow> addr \<Rightarrow> 'a list" where
  "block h p = (case blocks h p of None \<Rightarrow> [] | Some xs \<Rightarrow> xs)"

definition load :: "'a heap \<Rightarrow> pointer \<Rightarrow> failure + 'a" where
  "load h ptr =
     (if snd ptr < length (block h (fst ptr)) then Inr (block h (fst ptr) ! snd ptr)
      else Inl invalid_access)"

definition store :: "'a heap \<Rightarrow> pointer \<Rightarrow> 'a \<Rightarrow> failure + 'a heap" where
  "store h ptr x =
     (if snd ptr < length (block h (fst ptr))
      then Inr (h\<lparr>blocks := (blocks h)(fst ptr \<mapsto> (block h (fst ptr))[snd ptr := x])\<rparr>)
      else Inl invalid_access)"

definition ptr_add :: "pointer \<Rightarrow> nat \<Rightarrow> pointer" where
  "ptr_add ptr n = (fst ptr, snd ptr + n)"

definition ptr_dec :: "pointer \<Rightarrow> pointer" where
  "ptr_dec ptr = (fst ptr, snd ptr - 1)"

text \<open>
  A reference parameter (\<open>const Type&\<close>, \<open>Type&&\<close>) refers to an object that is either
  outside the store (a temporary or a variable of the caller, whose value the reference
  carries here) or an element of a block, possibly of the very vector the call is made on.
  The object is read and written where the callee does so, not where the call is made.
\<close>

datatype 'a reference = Outside 'a | Element pointer

definition read_ref :: "'a heap \<Rightarrow> 'a reference \<Rightarrow> failure + 'a" where
  "read_ref h r = (case r of Outside x \<Rightarrow> Inr x | Element p \<Rightarrow> load h p)"


text \<open>
  Modelled from the spec: \<open>array_ptr.h\<close> (class \<open>ArrayPtr\<close>) is not among the sources.
  The spec describes it as a fixed-size, exclusively owned heap block, constructible empty
  or with a requested element count (elements default-valued), with indexed access and an
  ownership-exchanging swap, released when its owner's lifetime ends. An \<open>ArrayPtr\<close> is
  its raw pointer: the address of the block.
\<close>

definition ArrayPtr_new :: "'a \<Rightarrow> nat \<Rightarrow> 'a heap \<Rightarrow> 'a heap \<times> addr" where
  "ArrayPtr_new d n h =
     (if n = 0 then (h, 0)
      else (h\<lparr>blocks := (blocks h)(brk h \<mapsto> replicate n d), brk := Suc (brk h)\<rparr>, brk h))"

definition ArrayPtr_delete :: "'a heap \<Rightarrow> addr \<Rightarrow> failure + 'a heap" where
  "ArrayPtr_delete h p =
     (if p = 0 then Inr h
      else case blocks h p of
             None \<Rightarrow> Inl invalid_access
           | Some xs \<Rightarrow> Inr (h\<lparr>blocks := (blocks h)(p := None)\<rparr>))"

section \<open>The element loops of \<open><algorithm>\<close>\<close>

text \<open>
  \<open>std::copy(first, last, d_first)\<close> and \<open>std::move(first, last, d_first)\<close>:
  \<open>while (first != last) *d_first++ = *first++;\<close>. A range whose ends are in different
  blocks or in the wrong order is undefined behaviour.
\<close>

function std_copy :: "'a heap \<Rightarrow> pointer \<Rightarrow> pointer \<Rightarrow> pointer \<Rightarrow> failure + 'a heap" where
  "std_copy h first lst d_first =
     (if fst first \<noteq> fst lst \<or> snd lst < snd first then Inl invalid_access
      else if first = lst then Inr h
      else case load h first of
             Inl e \<Rightarrow> Inl e
           | Inr x \<Rightarrow>
               (case store h d_first x of
                  Inl e \<Rightarrow> Inl e
                | Inr h' \<Rightarrow> std_copy h' (ptr_add first 1) lst (ptr_add d_first 1)))"
  by pat_completeness auto
termination
  by (relation "measure (\<lambda>(h, first, lst, d_first). snd lst - snd first)")
     (auto simp: ptr_add_def prod_eq_iff)

declare std_copy.simps [simp del]

definition std_move :: "'a heap \<Rightarrow> pointer \<Rightarrow> pointer \<Rightarrow> pointer \<Rightarrow> failure + 'a heap" where
  "std_move h first lst d_first = std_copy h first lst d_first"

text \<open>
  \<open>std::copy_backward(first, last, d_last)\<close> and \<open>std::move_backward\<close>:
  \<open>while (first != last) *(--d_last) = *(--last);\<close>.
\<close>

function std_copy_backward ::
  "'a heap \<Rightarrow> pointer \<Rightarrow> pointer \<Rightarrow> pointer \<Rightarrow> failure + 'a heap" where
  "std_copy_backward h first lst d_last =
     (if fst first \<noteq> fst lst \<or> snd lst < snd first then Inl invalid_access
      else if first = lst then Inr h
      else if snd d_last = 0 then Inl invalid_access
      else case load h (ptr_dec lst) of
             Inl e \<Rightarrow> Inl e
           | Inr x \<Rightarrow>
               (case store h (ptr_dec d_last) x of
                  Inl e \<Rightarrow> Inl e
                | Inr h' \<Rightarrow> std_copy_backward h' first (ptr_dec lst) (ptr_dec d_last)))"
  by pat_completeness auto
termination
  by (relation "measure (\<lambda>(h, first, lst, d_last). snd lst - snd first)")
     (auto simp: ptr_dec_def prod_eq_iff)

declare std_copy_backward.simps [simp del]


text \<open>\<open>std::fill(first, last, value)\<close>: \<open>for (; first != last; ++first) *first = value;\<close>.\<close>

function std_fill :: "'a heap \<Rightarrow> pointer \<Rightarrow> pointer \<Rightarrow> 'a \<Rightarrow> failure + 'a heap" where
  "std_fill h first lst v =
     (if fst first \<noteq> fst lst \<or> snd lst < snd first then Inl invalid_access
      else if first = lst then Inr h
      else case store h first v of
             Inl e \<Rightarrow> Inl e
           | Inr h' \<Rightarrow> std_fill h' (ptr_add first 1) lst v)"
  by pat_completeness auto
termination
  by (relation "measure (\<lambda>(h, first, lst, v). snd lst - snd first)")
     (auto simp: ptr_add_def prod_eq_iff)

declare std_fill.simps [simp del]

text \<open>
  \<open>std::equal(first1, last1, first2, last2)\<close> on random-access iterators: ranges of
  different lengths are unequal; otherwise the elements are compared in order.
\<close>

function std_equal ::
  "'a heap \<Rightarrow> pointer \<Rightarrow> pointer \<Rightarrow> pointer \<Rightarrow> pointer \<Rightarrow> failure + bool" where
  "std_equal h first1 last1 first2 last2 =
     (if fst first1 \<noteq> fst last1 \<or> snd last1 < snd first1
         \<or> fst first2 \<noteq> fst last2 \<or> snd last2 < snd first2 then Inl invalid_access
      else if snd last1 - snd first1 \<noteq> snd last2 - snd first2 then Inr False
      else if first1 = last1 then Inr True
      else case load h first1 of
             Inl e \<Rightarrow> Inl e
           | Inr x \<Rightarrow>
               (case load h first2 of
                  Inl e \<Rightarrow> Inl e
                | Inr y \<Rightarrow>
                    if x = y then std_equal h (ptr_add first1 1) last1 (ptr_add first2 1) last2
                    else Inr False))"
  by pat_completeness auto
termination
  by (relation "measure (\<lambda>(h, first1, last1, first2, last2). snd last1 - snd first1)")
     (auto simp: ptr_add_def prod_eq_iff)

declare std_equal.simps [simp del]

text \<open>
  \<open>std::lexicographical_compare(first1, last1, first2, last2)\<close>:
  \<^verbatim>\<open>
  for (; first1 != last1 && first2 != last2; ++first1, ++first2) {
      if (*first1 < *first2) return true;
      if (*first2 < *first1) return false;
  }
  return first1 == last1 && first2 != last2;
  \<close>
\<close>

function std_lexicographical_compare ::
  "('a::ord) heap \<Rightarrow> pointer \<Rightarrow> pointer \<Rightarrow> pointer \<Rightarrow> pointer \<Rightarrow> failure + bool" where
  "std_lexicographical_compare h first1 last1 first2 last2 =
     (if fst first1 \<noteq> fst last1 \<or> snd last1 < snd first1
         \<or> fst first2 \<noteq> fst last2 \<or> snd last2 < snd first2 then Inl invalid_access
      else if first1 \<noteq> last1 \<and> first2 \<noteq> last2 then
        (case load h first1 of
           Inl e \<Rightarrow> Inl e
         | Inr x \<Rightarrow>
             (case load h first2 of
                Inl e \<Rightarrow> Inl e
              | Inr y \<Rightarrow>
                  if x < y then Inr True
                  else if y < x then Inr False
                  else std_lexicographical_compare h (ptr_add first1 1) last1
                         (ptr_add first2 1) last2))
      else Inr (first1 = last1 \<and> first2 \<noteq> last2))"
  by pat_completeness auto
termination
  by (relation "measure (\<lambda>(h, first1, last1, first2, last2). snd last1 - snd first1)")
     (auto simp: ptr_add_def prod_eq_iff)

declare std_lexicographical_compare.simps [simp del]

section \<open>\<open>ReserveProxyObj\<close> and \<open>SimpleVector\<close>\<close>

datatype ReserveProxyObj = ReserveProxyObj (GetCapacity_proxy: nat)

definition Reserve :: "nat \<Rightarrow> ReserveProxyObj" where
  "Reserve capacity_to_reserve = ReserveProxyObj capacity_to_reserve"

text \<open>
  The members \<open>arr_\<close>, \<open>size_\<close> and \<open>capacity_\<close>. \<open>arr_\<close> is the \<open>ArrayPtr\<close>,
  that is, the address of the block it owns.
\<close>

record SimpleVector =
  m_arr :: addr
  m_size :: nat
  m_capacity :: nat

definition GetSize :: "SimpleVector \<Rightarrow> nat" where
  "GetSize this = m_size this"

definition GetCapacity :: "SimpleVector \<Rightarrow> nat" where
  "GetCapacity this = m_capacity this"

definition IsEmpty :: "SimpleVector \<Rightarrow> bool" where
  "IsEmpty this = (m_size this = 0)"

definition Clear :: "SimpleVector \<Rightarrow> SimpleVector" where
  "Clear this = this\<lparr>m_size := 0\<rparr>"

text \<open>\<open>begin()\<close>, \<open>end()\<close> (and \<open>cbegin()\<close>, \<open>cend()\<close>, which return the same pointers).\<close>

definition begin_it :: "SimpleVector \<Rightarrow> pointer" where
  "begin_it this = (m_arr this, 0)"

definition end_it :: "SimpleVector \<Rightarrow> pointer" where
  "end_it this = ptr_add (m_arr this, 0) (m_size this)"

text \<open>
  Pointer comparison and \<open>std::distance\<close>. Comparing pointers into different blocks is
  unspecified in C++; here such a comparison is false, so the asserts of \<open>Insert\<close> and
  \<open>Erase\<close> reject a position that is not in the vector's own block.
\<close>

definition ptr_le :: "pointer \<Rightarrow> pointer \<Rightarrow> bool" where
  "ptr_le a b = (fst a = fst b \<and> snd a \<le> snd b)"

definition ptr_less :: "pointer \<Rightarrow> pointer \<Rightarrow> bool" where
  "ptr_less a b = (fst a = fst b \<and> snd a < snd b)"

definition std_distance :: "pointer \<Rightarrow> pointer \<Rightarrow> nat" where
  "std_distance a b = snd b - snd a"

text \<open>The implicit destructor: \<open>~ArrayPtr\<close> releases the block.\<close>

definition destroy :: "'a heap \<Rightarrow> SimpleVector \<Rightarrow> failure + 'a heap" where
  "destroy h this = ArrayPtr_delete h (m_arr this)"

subsection \<open>\<open>swap\<close>\<close>

text \<open>\<open>swap(SimpleVector&)\<close> returns the new \<open>*this\<close> and the new \<open>other\<close>.\<close>

definition swap_vec :: "SimpleVector \<Rightarrow> SimpleVector \<Rightarrow> SimpleVector \<times> SimpleVector" where
  "swap_vec this other =
     (this\<lparr>m_arr := m_arr other, m_size := m_size other, m_capacity := m_capacity other\<rparr>,
      other\<lparr>m_arr := m_arr this, m_size := m_size this, m_capacity := m_capacity this\<rparr>)"

text \<open>\<open>swap(SimpleVector&&)\<close>: the same, then \<open>other.Clear()\<close>.\<close>

definition swap_rvalue :: "SimpleVector \<Rightarrow> SimpleVector \<Rightarrow> SimpleVector \<times> SimpleVector" where
  "swap_rvalue this other =
     (case swap_vec this other of (this', other') \<Rightarrow> (this', Clear other'))"

subsection \<open>Constructors\<close>

definition SimpleVector_default :: SimpleVector where
  "SimpleVector_default = \<lparr>m_arr = 0, m_size = 0, m_capacity = 0\<rparr>"

text \<open>
  The loop of \<open>SimpleVector(size_t size, Type&& value)\<close>:
  \<open>for (it = arr_.Get(); it != arr_.Get() + size; ++it) { *it = std::move(value); value = Type{}; }\<close>.
  The constructors carry \<open>value\<close> by value: the block they fill is new, so \<open>value\<close> is
  not one of its elements, and the parameter \<open>v\<close> of the loop is what the caller's object
  holds at each iteration.
\<close>

function move_value_loop ::
  "'a \<Rightarrow> 'a heap \<Rightarrow> pointer \<Rightarrow> pointer \<Rightarrow> 'a \<Rightarrow> failure + 'a heap" where
  "move_value_loop d h it lim v =
     (if fst it \<noteq> fst lim \<or> snd lim < snd it then Inl invalid_access
      else if it = lim then Inr h
      else case store h it v of
             Inl e \<Rightarrow> Inl e
           | Inr h' \<Rightarrow> move_value_loop d h' (ptr_add it 1) lim d)"
  by pat_completeness auto
termination
  by (relation "measure (\<lambda>(d, h, it, lim, v). snd lim - snd it)")
     (auto simp: ptr_add_def prod_eq_iff)

declare move_value_loop.simps [simp del]

definition SimpleVector_size_rvalue ::
  "'a \<Rightarrow> 'a heap \<Rightarrow> nat \<Rightarrow> 'a \<Rightarrow> failure + 'a heap \<times> SimpleVector" where
  "SimpleVector_size_rvalue d h n v =
     (case ArrayPtr_new d n h of
        (h1, p) \<Rightarrow>
          (case move_value_loop d h1 (p, 0) (ptr_add (p, 0) n) v of
             Inl e \<Rightarrow> Inl e
           | Inr h2 \<Rightarrow> Inr (h2, \<lparr>m_arr = p, m_size = n, m_capacity = n\<rparr>)))"

text \<open>\<open>explicit SimpleVector(size_t size)\<close> delegates with \<open>std::move(Type{})\<close>.\<close>

definition SimpleVector_size :: "'a \<Rightarrow> 'a heap \<Rightarrow> nat \<Rightarrow> failure + 'a heap \<times> SimpleVector" where
  "SimpleVector_size d h n = SimpleVector_size_rvalue d h n d"

definition SimpleVector_size_value ::
  "'a \<Rightarrow> 'a heap \<Rightarrow> nat \<Rightarrow> 'a \<Rightarrow> failure + 'a heap \<times> SimpleVector" where
  "SimpleVector_size_value d h n v =
     (case ArrayPtr_new d n h of
        (h1, p) \<Rightarrow>
          (let this = \<lparr>m_arr = p, m_size = n, m_capacity = n\<rparr> in
           case std_fill h1 (begin_it this) (end_it this) v of
             Inl e \<Rightarrow> Inl e
           | Inr h2 \<Rightarrow> Inr (h2, this)))"

text \<open>
  \<open>SimpleVector(std::initializer_list<Type> init)\<close>: the items are moved from the list,
  which is not a block of the store, into the new block.
\<close>

fun move_from_list :: "'a heap \<Rightarrow> 'a list \<Rightarrow> pointer \<Rightarrow> failure + 'a heap" where
  "move_from_list h [] d_first = Inr h"
| "move_from_list h (x # xs) d_first =
     (case store h d_first x of
        Inl e \<Rightarrow> Inl e
      | Inr h' \<Rightarrow> move_from_list h' xs (ptr_add d_first 1))"

definition SimpleVector_init ::
  "'a \<Rightarrow> 'a heap \<Rightarrow> 'a list \<Rightarrow> failure + 'a heap \<times> SimpleVector" where
  "SimpleVector_init d h init =
     (case ArrayPtr_new d (length init) h of
        (h1, p) \<Rightarrow>
          (case move_from_list h1 init (p, 0) of
             Inl e \<Rightarrow> Inl e
           | Inr h2 \<Rightarrow>
               Inr (h2, \<lparr>m_arr = p, m_size = length init, m_capacity = length init\<rparr>)))"

text \<open>
  The copy constructor. \<open>*this\<close> starts from the default member initialisers, \<open>tmp\<close> is
  built with \<open>other.GetSize()\<close> elements, receives the elements and then
  \<open>other.GetCapacity()\<close> as its capacity, is swapped into \<open>*this\<close> and destroyed.
\<close>

definition SimpleVector_copy ::
  "'a \<Rightarrow> 'a heap \<Rightarrow> SimpleVector \<Rightarrow> failure + 'a heap \<times> SimpleVector" where
  "SimpleVector_copy d h other =
     (case SimpleVector_size d h (GetSize other) of
        Inl e \<Rightarrow> Inl e
      | Inr (h1, tmp) \<Rightarrow>
          (case std_copy h1 (begin_it other) (end_it other) (begin_it tmp) of
             Inl e \<Rightarrow> Inl e
           | Inr h2 \<Rightarrow>
               (case swap_vec SimpleVector_default (tmp\<lparr>m_capacity := GetCapacity other\<rparr>) of
                  (this, tmp') \<Rightarrow>
                    (case destroy h2 tmp' of
                       Inl e \<Rightarrow> Inl e
                     | Inr h3 \<Rightarrow> Inr (h3, this)))))"

text \<open>
  The move constructor; it returns the heap, the new vector and the moved-from \<open>other\<close>.
  \<open>arr_\<close> is initialised with a block of \<open>other.size_\<close> elements, \<open>size_\<close> and
  \<open>capacity_\<close> with their default \<open>0\<close>. The object under construction is never
  \<open>other\<close>, so the test \<open>this != &other\<close> is true. \<open>std::move\<close> of a \<open>size_t\<close>
  copies it.
\<close>

definition SimpleVector_move ::
  "'a \<Rightarrow> 'a heap \<Rightarrow> SimpleVector \<Rightarrow> 'a heap \<times> SimpleVector \<times> SimpleVector" where
  "SimpleVector_move d h other =
     (case ArrayPtr_new d (m_size other) h of
        (h1, p) \<Rightarrow>
          (let this0 = \<lparr>m_arr = p, m_size = 0, m_capacity = 0\<rparr>;
               this1 = this0\<lparr>m_arr := m_arr other\<rparr>;
               other1 = other\<lparr>m_arr := m_arr this0\<rparr>;
               this2 = this1\<lparr>m_size := m_size other1\<rparr>;
               this3 = this2\<lparr>m_capacity := m_capacity other1\<rparr>
           in (h1, this3, Clear other1)))"

definition SimpleVector_reserve ::
  "'a \<Rightarrow> 'a heap \<Rightarrow> ReserveProxyObj \<Rightarrow> 'a heap \<times> SimpleVector" where
  "SimpleVector_reserve d h proxy =
     (case ArrayPtr_new d (GetCapacity_proxy proxy) h of
        (h1, p) \<Rightarrow> (h1, \<lparr>m_arr = p, m_size = 0, m_capacity = GetCapacity_proxy proxy\<rparr>))"

subsection \<open>Capacity\<close>

text \<open>
  \<open>ChangeCapacity(new_size)\<close>: a vector \<open>new_arr\<close> of \<open>new_size\<close> default elements
  receives the elements of \<open>*this\<close>, is swapped with \<open>*this\<close> (rvalue overload), the
  size is restored, and \<open>new_arr\<close>, which now owns the old block, is destroyed.
\<close>

definition ChangeCapacity ::
  "'a \<Rightarrow> 'a heap \<Rightarrow> SimpleVector \<Rightarrow> nat \<Rightarrow> failure + 'a heap \<times> SimpleVector" where
  "ChangeCapacity d h this new_size =
     (case SimpleVector_size d h new_size of
        Inl e \<Rightarrow> Inl e
      | Inr (h1, new_arr) \<Rightarrow>
          (let prev_size = m_size this in
           case std_move h1 (begin_it this) (end_it this) (begin_it new_arr) of
             Inl e \<Rightarrow> Inl e
           | Inr h2 \<Rightarrow>
               (case swap_rvalue this new_arr of
                  (this', new_arr') \<Rightarrow>
                    (case destroy h2 new_arr' of
                       Inl e \<Rightarrow> Inl e
                     | Inr h3 \<Rightarrow> Inr (h3, this'\<lparr>m_size := prev_size\<rparr>)))))"

text \<open>The method \<open>Reserve(new_capacity)\<close>.\<close>

definition Reserve_capacity ::
  "'a \<Rightarrow> 'a heap \<Rightarrow> SimpleVector \<Rightarrow> nat \<Rightarrow> failure + 'a heap \<times> SimpleVector" where
  "Reserve_capacity d h this new_capacity =
     (if m_capacity this < new_capacity then ChangeCapacity d h this new_capacity
      else Inr (h, this))"

text \<open>
  \<open>Resize(new_size)\<close>. The loop that writes \<open>Type{}\<close> from \<open>begin() + size_\<close> to
  \<open>begin() + new_size\<close> is the loop of \<open>std_fill\<close>.
\<close>

definition Resize ::
  "'a \<Rightarrow> 'a heap \<Rightarrow> SimpleVector \<Rightarrow> nat \<Rightarrow> failure + 'a heap \<times> SimpleVector" where
  "Resize d h this new_size =
     (if new_size \<le> m_size this then Inr (h, this\<lparr>m_size := new_size\<rparr>)
      else
        case (if new_size \<le> m_capacity this then
                (case std_fill h (ptr_add (begin_it this) (m_size this))
                        (ptr_add (begin_it this) new_size) d of
                   Inl e \<Rightarrow> Inl e
                 | Inr h1 \<Rightarrow> Inr (h1, this))
              else ChangeCapacity d h this new_size) of
          Inl e \<Rightarrow> Inl e
        | Inr (h1, this1) \<Rightarrow> Inr (h1, this1\<lparr>m_size := new_size\<rparr>))"

subsection \<open>\<open>PushBack\<close>, \<open>PopBack\<close>, \<open>Insert\<close>, \<open>Erase\<close>\<close>

text \<open>
  The growth step shared by both overloads of \<open>PushBack\<close> and of \<open>Insert\<close>:
  \<open>if (size_ == capacity_) size_ != 0 ? ChangeCapacity(2 * size_) : ChangeCapacity(1);\<close>.
\<close>

definition grow_if_full ::
  "'a \<Rightarrow> 'a heap \<Rightarrow> SimpleVector \<Rightarrow> failure + 'a heap \<times> SimpleVector" where
  "grow_if_full d h this =
     (if m_size this = m_capacity this then
        (if m_size this \<noteq> 0 then ChangeCapacity d h this (2 * m_size this)
         else ChangeCapacity d h this 1)
      else Inr (h, this))"

text \<open>
  \<open>PushBack(const Type& item)\<close>: \<open>item\<close> is read by \<open>arr_[size_] = item\<close>, after the
  growth step.
\<close>

definition PushBack ::
  "'a \<Rightarrow> 'a heap \<Rightarrow> SimpleVector \<Rightarrow> 'a reference \<Rightarrow> failure + 'a heap \<times> SimpleVector" where
  "PushBack d h this item =
     (case grow_if_full d h this of
        Inl e \<Rightarrow> Inl e
      | Inr (h1, this1) \<Rightarrow>
          (case read_ref h1 item of
             Inl e \<Rightarrow> Inl e
           | Inr x \<Rightarrow>
               (case store h1 (m_arr this1, m_size this1) x of
                  Inl e \<Rightarrow> Inl e
                | Inr h2 \<Rightarrow> Inr (h2, this1\<lparr>m_size := m_size this1 + 1\<rparr>))))"


definition PopBack :: "SimpleVector \<Rightarrow> SimpleVector" where
  "PopBack this = (if IsEmpty this then this else this\<lparr>m_size := m_size this - 1\<rparr>)"

text \<open>
  \<open>Insert(pos, const Type& value)\<close> returns the heap, the vector and the iterator it
  returns. \<open>value\<close> is read by \<open>arr_[index] = std::move(value)\<close>, after the growth step
  and after the elements have been shifted.
\<close>

definition Insert ::
  "'a \<Rightarrow> 'a heap \<Rightarrow> SimpleVector \<Rightarrow> pointer \<Rightarrow> 'a reference \<Rightarrow>
   failure + 'a heap \<times> SimpleVector \<times> pointer" where
  "Insert d h this pos v =
     (if \<not> (ptr_le (begin_it this) pos \<and> ptr_le pos (end_it this)) then Inl assertion_failed
      else
        let index = std_distance (begin_it this) pos in
        case grow_if_full d h this of
          Inl e \<Rightarrow> Inl e
        | Inr (h1, this1) \<Rightarrow>
            (let it = ptr_add (begin_it this1) index in
             case std_copy_backward h1 it (end_it this1) (ptr_add (end_it this1) 1) of
               Inl e \<Rightarrow> Inl e
             | Inr h2 \<Rightarrow>
                 (case read_ref h2 v of
                    Inl e \<Rightarrow> Inl e
                  | Inr x \<Rightarrow>
                      (case store h2 (m_arr this1, index) x of
                         Inl e \<Rightarrow> Inl e
                       | Inr h3 \<Rightarrow>
                           (let this2 = this1\<lparr>m_size := m_size this1 + 1\<rparr>
                            in Inr (h3, this2, ptr_add (begin_it this2) index))))))"


definition Erase ::
  "'a heap \<Rightarrow> SimpleVector \<Rightarrow> pointer \<Rightarrow> failure + 'a heap \<times> SimpleVector \<times> pointer" where
  "Erase h this pos =
     (if \<not> (ptr_le (begin_it this) pos \<and> ptr_less pos (end_it this)) then Inl assertion_failed
      else
        let index = std_distance (begin_it this) pos;
            it = ptr_add (begin_it this) index
        in case std_move h (ptr_add it 1) (end_it this) it of
             Inl e \<Rightarrow> Inl e
           | Inr h1 \<Rightarrow> Inr (h1, this\<lparr>m_size := m_size this - 1\<rparr>, pos))"

subsection \<open>Element access\<close>

text \<open>
  \<open>operator[]\<close> and \<open>At\<close> return a reference: the pointer \<open>begin() + index\<close>. \<open>At\<close>
  throws a catchable exception, after which the vector is still there, so the model
  returns the vector beside the result.
\<close>

definition subscript :: "SimpleVector \<Rightarrow> nat \<Rightarrow> failure + pointer" where
  "subscript this index =
     (if index < m_size this then Inr (ptr_add (begin_it this) index)
      else Inl assertion_failed)"

definition At :: "SimpleVector \<Rightarrow> nat \<Rightarrow> (failure + pointer) \<times> SimpleVector" where
  "At this index =
     (if index \<ge> m_size this then (Inl out_of_range, this)
      else (Inr (ptr_add (begin_it this) index), this))"

subsection \<open>Assignment\<close>

text \<open>
  The assignment operators compare the addresses of the two objects (\<open>this != &rhs\<close>), so
  they are modelled on named objects: \<open>vs\<close> maps the name of an object to its members,
  and \<open>this\<close> and \<open>rhs\<close> are names.
\<close>

type_synonym objects = "nat \<Rightarrow> SimpleVector"

definition no_objects :: objects where
  "no_objects = (\<lambda>name. SimpleVector_default)"

definition assign_copy ::
  "'a \<Rightarrow> 'a heap \<times> objects \<Rightarrow> nat \<Rightarrow> nat \<Rightarrow> failure + 'a heap \<times> objects" where
  "assign_copy d st this rhs =
     (case st of
        (h, vs) \<Rightarrow>
          if this \<noteq> rhs then
            (if IsEmpty (vs rhs) then Inr (h, vs(this := Clear (vs this)))
             else
               case SimpleVector_copy d h (vs rhs) of
                 Inl e \<Rightarrow> Inl e
               | Inr (h1, copy) \<Rightarrow>
                   (case swap_vec (vs this) copy of
                      (this', copy') \<Rightarrow>
                        (case destroy h1 copy' of
                           Inl e \<Rightarrow> Inl e
                         | Inr h2 \<Rightarrow> Inr (h2, vs(this := this')))))
          else Inr (h, vs))"

definition assign_move :: "'a heap \<times> objects \<Rightarrow> nat \<Rightarrow> nat \<Rightarrow> 'a heap \<times> objects" where
  "assign_move st this rhs =
     (case st of
        (h, vs) \<Rightarrow>
          if this \<noteq> rhs then
            (if IsEmpty (vs rhs) then (h, vs(this := Clear (vs this)))
             else
               case swap_rvalue (vs this) (vs rhs) of
                 (this', rhs') \<Rightarrow> (h, vs(this := this', rhs := Clear rhs')))
          else (h, vs))"

subsection \<open>Comparison operators\<close>

definition op_eq :: "'a heap \<Rightarrow> SimpleVector \<Rightarrow> SimpleVector \<Rightarrow> failure + bool" where
  "op_eq h lhs rhs =
     (if GetSize lhs = GetSize rhs
      then std_equal h (begin_it lhs) (end_it lhs) (begin_it rhs) (end_it rhs)
      else Inr False)"

definition op_neq :: "'a heap \<Rightarrow> SimpleVector \<Rightarrow> SimpleVector \<Rightarrow> failure + bool" where
  "op_neq h lhs rhs = (case op_eq h lhs rhs of Inl e \<Rightarrow> Inl e | Inr b \<Rightarrow> Inr (\<not> b))"

definition op_less ::
  "('a::ord) heap \<Rightarrow> SimpleVector \<Rightarrow> SimpleVector \<Rightarrow> failure + bool" where
  "op_less h lhs rhs =
     std_lexicographical_compare h (begin_it lhs) (end_it lhs) (begin_it rhs) (end_it rhs)"

definition op_le ::
  "('a::ord) heap \<Rightarrow> SimpleVector \<Rightarrow> SimpleVector \<Rightarrow> failure + bool" where
  "op_le h lhs rhs = (case op_less h rhs lhs of Inl e \<Rightarrow> Inl e | Inr b \<Rightarrow> Inr (\<not> b))"

definition op_greater ::
  "('a::ord) heap \<Rightarrow> SimpleVector \<Rightarrow> SimpleVector \<Rightarrow> failure + bool" where
  "op_greater h lhs rhs = op_less h rhs lhs"

definition op_ge ::
  "('a::ord) heap \<Rightarrow> SimpleVector \<Rightarrow> SimpleVector \<Rightarrow> failure + bool" where
  "op_ge h lhs rhs = (case op_greater h rhs lhs of Inl e \<Rightarrow> Inl e | Inr b \<Rightarrow> Inr (\<not> b))"

section \<open>Sequences of calls\<close>


text \<open>
  The calls that change a vector: the mutators of the class (\<open>PushBack\<close> and \<open>Insert\<close>
  with any reference as argument), with positions given as
  offsets from \<open>begin()\<close>, and the assignments \<open>v[index] = x\<close> and
  \<open>v.At(index) = x\<close> through the reference returned.
\<close>

datatype 'a mutation =
    Call_PushBack "'a reference"
  | Call_PopBack
  | Call_Insert nat "'a reference"
  | Call_Erase nat
  | Call_Resize nat
  | Call_Reserve nat
  | Call_Clear
  | Call_assign_subscript nat 'a
  | Call_assign_At nat 'a

fun mutate ::
  "'a \<Rightarrow> 'a heap \<Rightarrow> SimpleVector \<Rightarrow> 'a mutation \<Rightarrow> failure + 'a heap \<times> SimpleVector" where
  "mutate d h this (Call_PushBack x) = PushBack d h this x"
| "mutate d h this Call_PopBack = Inr (h, PopBack this)"
| "mutate d h this (Call_Insert i x) =
     (case Insert d h this (ptr_add (begin_it this) i) x of
        Inl e \<Rightarrow> Inl e
      | Inr (h', this', it) \<Rightarrow> Inr (h', this'))"
| "mutate d h this (Call_Erase i) =
     (case Erase h this (ptr_add (begin_it this) i) of
        Inl e \<Rightarrow> Inl e
      | Inr (h', this', it) \<Rightarrow> Inr (h', this'))"
| "mutate d h this (Call_Resize n) = Resize d h this n"
| "mutate d h this (Call_Reserve n) = Reserve_capacity d h this n"
| "mutate d h this Call_Clear = Inr (h, Clear this)"
| "mutate d h this (Call_assign_subscript i x) =
     (case subscript this i of
        Inl e \<Rightarrow> Inl e
      | Inr ref \<Rightarrow>
          (case store h ref x of
             Inl e \<Rightarrow> Inl e
           | Inr h' \<Rightarrow> Inr (h', this)))"
| "mutate d h this (Call_assign_At i x) =
     (case At this i of
        (Inl e, this') \<Rightarrow> Inl e
      | (Inr ref, this') \<Rightarrow>
          (case store h ref x of
             Inl e \<Rightarrow> Inl e
           | Inr h' \<Rightarrow> Inr (h', this')))"

fun mutate_all ::
  "'a \<Rightarrow> 'a heap \<Rightarrow> SimpleVector \<Rightarrow> 'a mutation list \<Rightarrow> failure + 'a heap \<times> SimpleVector" where
  "mutate_all d h this [] = Inr (h, this)"
| "mutate_all d h this (m # ms) =
     (case mutate d h this m of
        Inl e \<Rightarrow> Inl e
      | Inr (h', this') \<Rightarrow> mutate_all d h' this' ms)"

section \<open>Abstraction and invariants\<close>

text \<open>The elements of a vector: the first \<open>size_\<close> elements of its block.\<close>

definition elems :: "'a heap \<Rightarrow> SimpleVector \<Rightarrow> 'a list" where
  "elems h this = take (m_size this) (block h (m_arr this))"

text \<open>
  The allocator's bookkeeping: nothing lives at \<open>nullptr\<close> or at an address that has not
  been handed out yet.
\<close>

definition heap_ok :: "'a heap \<Rightarrow> bool" where
  "heap_ok h = (0 < brk h \<and> blocks h 0 = None \<and> (\<forall>p. brk h \<le> p \<longrightarrow> blocks h p = None))"

text \<open>
  The invariant of the data model: the storage has allocated exactly \<open>capacity_\<close>
  elements, or none when the pointer is null.
\<close>

definition storage_inv :: "'a heap \<Rightarrow> SimpleVector \<Rightarrow> bool" where
  "storage_inv h this =
     (if m_arr this = 0 then m_capacity this = 0
      else case blocks h (m_arr this) of
             None \<Rightarrow> False
           | Some xs \<Rightarrow> length xs = m_capacity this)"

definition vector_inv :: "'a heap \<Rightarrow> SimpleVector \<Rightarrow> bool" where
  "vector_inv h this = (m_size this \<le> m_capacity this \<and> storage_inv h this)"

text \<open>
  What every operation needs of a vector to stay within defined behaviour: its pointer is
  null or owns a live block, and the block holds at least \<open>size_\<close> elements.
\<close>

definition owns :: "'a heap \<Rightarrow> SimpleVector \<Rightarrow> bool" where
  "owns h this =
     ((m_arr this = 0 \<or> blocks h (m_arr this) \<noteq> None)
      \<and> m_size this \<le> length (block h (m_arr this)))"

text \<open>
  \<open>refers_outside h this r x\<close>: the reference \<open>r\<close> refers to an object that holds \<open>x\<close>
  and is not an element of the block of \<open>this\<close>.
\<close>

definition refers_outside :: "'a heap \<Rightarrow> SimpleVector \<Rightarrow> 'a reference \<Rightarrow> 'a \<Rightarrow> bool" where
  "refers_outside h this r x =
     (case r of
        Outside y \<Rightarrow> y = x
      | Element p \<Rightarrow> fst p \<noteq> m_arr this \<and> load h p = Inr x)"

text \<open>Proof vocabulary: the heap with the block at \<open>p\<close> replaced.\<close>

definition set_block :: "'a heap \<Rightarrow> addr \<Rightarrow> 'a list \<Rightarrow> 'a heap" where
  "set_block h p xs = h\<lparr>blocks := (blocks h)(p \<mapsto> xs)\<rparr>"

text \<open>The heap after \<open>new Type[n]\<close> has produced the block \<open>xs\<close>, and after \<open>delete[] p\<close>.\<close>

definition alloc_block :: "'a heap \<Rightarrow> 'a list \<Rightarrow> 'a heap" where
  "alloc_block h xs = h\<lparr>blocks := (blocks h)(brk h \<mapsto> xs), brk := Suc (brk h)\<rparr>"

definition free_block :: "'a heap \<Rightarrow> addr \<Rightarrow> 'a heap" where
  "free_block h p = (if p = 0 then h else h\<lparr>blocks := (blocks h)(p := None)\<rparr>)"

text \<open>
  \<open>frame p h h'\<close>: from \<open>h\<close> to \<open>h'\<close> only the block at \<open>p\<close> and blocks allocated
  since may differ.
\<close>

definition frame :: "addr \<Rightarrow> 'a heap \<Rightarrow> 'a heap \<Rightarrow> bool" where
  "frame p h h' = (brk h \<le> brk h' \<and> (\<forall>q. q < brk h \<and> q \<noteq> p \<longrightarrow> blocks h' q = blocks h q))"

text \<open>
  \<open>writes_to p h h'\<close>: \<open>h'\<close> is \<open>h\<close>, or differs from it only in the contents of the
  live block at \<open>p\<close>.
\<close>

definition writes_to :: "addr \<Rightarrow> 'a heap \<Rightarrow> 'a heap \<Rightarrow> bool" where
  "writes_to p h h' =
     (h' = h \<or> (blocks h p \<noteq> None \<and> blocks h' p \<noteq> None \<and> brk h' = brk h
                \<and> (\<forall>q. q \<noteq> p \<longrightarrow> blocks h' q = blocks h q)))"

section \<open>Basic facts about the store\<close>

lemma block_Some: "blocks h p = Some xs \<Longrightarrow> block h p = xs"
  by (simp add: block_def)

lemma block_None: "blocks h p = None \<Longrightarrow> block h p = []"
  by (simp add: block_def)

lemma load_owned:
  "owns h this \<Longrightarrow> i < m_size this \<Longrightarrow> load h (m_arr this, i) = Inr (elems h this ! i)"
  by (simp add: owns_def load_def elems_def)

section \<open>Element access\<close>

text \<open>
  C7. \<open>At(index)\<close> throws \<open>std::out_of_range\<close> if and only if \<open>index >= size_\<close>
  (so also for index \<open>0\<close> of an empty vector) and then leaves the vector as it was;
  for \<open>index < size_\<close> it returns the reference \<open>begin() + index\<close>, and reading through
  that reference gives the element at \<open>index\<close>.
\<close>

theorem At_out_of_range_iff:
  "(fst (At this index) = Inl out_of_range \<longleftrightarrow> m_size this \<le> index)
   \<and> snd (At this index) = this
   \<and> (IsEmpty this \<longrightarrow> At this 0 = (Inl out_of_range, this))
   \<and> (index < m_size this \<longrightarrow>
        fst (At this index) = Inr (m_arr this, index)
        \<and> (owns h this \<longrightarrow> load h (m_arr this, index) = Inr (elems h this ! index)))"
  by (simp add: At_def IsEmpty_def ptr_add_def begin_it_def load_owned)

theorem At_out_of_range_iff_witness:
  "(fst (At \<lparr>m_arr = 1, m_size = 2, m_capacity = 3\<rparr> 2) = Inl out_of_range)
   \<and> At SimpleVector_default 0 = (Inl out_of_range, SimpleVector_default)
   \<and> IsEmpty SimpleVector_default
   \<and> owns \<lparr>blocks = (\<lambda>p. None)(1 \<mapsto> [10, 20, 30 :: int]), brk = 2\<rparr>
        \<lparr>m_arr = 1, m_size = 2, m_capacity = 3\<rparr>
   \<and> fst (At \<lparr>m_arr = 1, m_size = 2, m_capacity = 3\<rparr> 1) = Inr (1, 1)
   \<and> load \<lparr>blocks = (\<lambda>p. None)(1 \<mapsto> [10, 20, 30 :: int]), brk = 2\<rparr> (1, 1) = Inr 20"
  using At_out_of_range_iff [of "\<lparr>m_arr = 1, m_size = 2, m_capacity = 3\<rparr>" 2
          "\<lparr>blocks = (\<lambda>p. None)(1 \<mapsto> [10, 20, 30 :: int]), brk = 2\<rparr>"]
        At_out_of_range_iff [of "\<lparr>m_arr = 1, m_size = 2, m_capacity = 3\<rparr>" 1
          "\<lparr>blocks = (\<lambda>p. None)(1 \<mapsto> [10, 20, 30 :: int]), brk = 2\<rparr>"]
        At_out_of_range_iff [of SimpleVector_default 0
          "\<lparr>blocks = (\<lambda>p. None)(1 \<mapsto> [10, 20, 30 :: int]), brk = 2\<rparr>"]
  by (simp add: owns_def block_def elems_def IsEmpty_def SimpleVector_default_def)

section \<open>What the loops compute on live blocks\<close>

lemma heap_ok_empty: "heap_ok empty_heap"
  by (simp add: heap_ok_def empty_heap_def)

lemma blocks_set_block [simp]: "blocks (set_block h p xs) = (blocks h)(p \<mapsto> xs)"
  by (simp add: set_block_def)

lemma brk_set_block [simp]: "brk (set_block h p xs) = brk h"
  by (simp add: set_block_def)

lemma block_set_block_same [simp]: "block (set_block h p xs) p = xs"
  by (simp add: block_def)

lemma block_set_block_other [simp]: "q \<noteq> p \<Longrightarrow> block (set_block h p xs) q = block h q"
  by (simp add: block_def)

lemma set_block_twice [simp]: "set_block (set_block h p xs) p ys = set_block h p ys"
  by (simp add: set_block_def)

lemma set_block_same: "blocks h p = Some xs \<Longrightarrow> set_block h p xs = h"
  by (simp add: set_block_def fun_upd_idem)

lemma store_block:
  "blocks h p = Some xs \<Longrightarrow> i < length xs \<Longrightarrow> store h (p, i) x = Inr (set_block h p (xs[i := x]))"
  by (simp add: store_def set_block_def block_def)

lemma load_block:
  "blocks h p = Some xs \<Longrightarrow> i < length xs \<Longrightarrow> load h (p, i) = Inr (xs ! i)"
  by (simp add: load_def block_def)

lemma std_fill_empty: "std_fill h (p, i) (p, i) v = Inr h"
  by (subst std_fill.simps) simp

lemma move_value_loop_empty: "move_value_loop d h (p, i) (p, i) v = Inr h"
  by (subst move_value_loop.simps) simp

lemma std_fill_block:
  "blocks h p = Some xs \<Longrightarrow> i \<le> j \<Longrightarrow> j \<le> length xs \<Longrightarrow>
   std_fill h (p, i) (p, j) v = Inr (set_block h p (take i xs @ replicate (j - i) v @ drop j xs))"
proof (induction "j - i" arbitrary: i h xs)
  case 0
  then show ?case by (simp add: set_block_same std_fill_empty)
next
  case (Suc n)
  then have lt: "i < j" "i < length xs" by auto
  have st: "store h (p, i) v = Inr (set_block h p (xs[i := v]))"
    using Suc.prems lt by (simp add: store_block)
  have step: "std_fill h (p, i) (p, j) v = std_fill (set_block h p (xs[i := v])) (p, Suc i) (p, j) v"
    using lt st by (subst std_fill.simps) (simp add: ptr_add_def)
  have IH: "std_fill (set_block h p (xs[i := v])) (p, Suc i) (p, j) v =
        Inr (set_block (set_block h p (xs[i := v])) p
              (take (Suc i) (xs[i := v]) @ replicate (j - Suc i) v @ drop j (xs[i := v])))"
    using Suc.hyps(2) Suc.prems lt by (intro Suc.hyps(1)) auto
  have "j - i = Suc (j - Suc i)" using lt by simp
  then have eq: "take (Suc i) (xs[i := v]) @ replicate (j - Suc i) v @ drop j (xs[i := v])
                 = take i xs @ replicate (j - i) v @ drop j xs"
    using lt by (simp add: take_Suc_conv_app_nth)
  show ?case by (simp only: step IH eq set_block_twice)
qed

lemma move_value_loop_block:
  "blocks h p = Some xs \<Longrightarrow> i \<le> j \<Longrightarrow> j \<le> length xs \<Longrightarrow>
   move_value_loop d h (p, i) (p, j) v =
     Inr (set_block h p (take i xs @ take (j - i) (v # replicate (j - Suc i) d) @ drop j xs))"
proof (induction "j - i" arbitrary: i h xs v)
  case 0
  then show ?case by (simp add: set_block_same move_value_loop_empty)
next
  case (Suc n)
  then have lt: "i < j" "i < length xs" by auto
  have st: "store h (p, i) v = Inr (set_block h p (xs[i := v]))"
    using Suc.prems lt by (simp add: store_block)
  have step: "move_value_loop d h (p, i) (p, j) v
              = move_value_loop d (set_block h p (xs[i := v])) (p, Suc i) (p, j) d"
    using lt st by (subst move_value_loop.simps) (simp add: ptr_add_def)
  have IH: "move_value_loop d (set_block h p (xs[i := v])) (p, Suc i) (p, j) d =
        Inr (set_block (set_block h p (xs[i := v])) p
              (take (Suc i) (xs[i := v]) @ take (j - Suc i) (d # replicate (j - Suc (Suc i)) d)
               @ drop j (xs[i := v])))"
    using Suc.hyps(2) Suc.prems lt by (intro Suc.hyps(1)) auto
  have ji: "j - i = Suc (j - Suc i)" using lt by simp
  have rep: "take (j - Suc i) (d # replicate (j - Suc (Suc i)) d) = replicate (j - Suc i) d"
    by (cases "j - Suc i") (simp_all)
  have eq: "take (Suc i) (xs[i := v]) @ take (j - Suc i) (d # replicate (j - Suc (Suc i)) d)
               @ drop j (xs[i := v])
            = take i xs @ take (j - i) (v # replicate (j - Suc i) d) @ drop j xs"
    using lt by (simp add: rep ji take_Suc_conv_app_nth)
  show ?case by (simp only: step IH eq set_block_twice)
qed

lemma move_value_loop_default:
  "blocks h p = Some xs \<Longrightarrow> i \<le> j \<Longrightarrow> j \<le> length xs \<Longrightarrow>
   move_value_loop d h (p, i) (p, j) d =
     Inr (set_block h p (take i xs @ replicate (j - i) d @ drop j xs))"
proof -
  assume a: "blocks h p = Some xs" "i \<le> j" "j \<le> length xs"
  have "take (j - i) (d # replicate (j - Suc i) d) = replicate (j - i) d"
    by (cases "j - i") (simp_all)
  then show ?thesis using move_value_loop_block [OF a, of d d] by simp
qed

lemma move_from_list_block:
  "blocks h p = Some ys \<Longrightarrow> i + length xs \<le> length ys \<Longrightarrow>
   move_from_list h xs (p, i) = Inr (set_block h p (take i ys @ xs @ drop (i + length xs) ys))"
proof (induction xs arbitrary: h i ys)
  case Nil
  then show ?case by (simp add: set_block_same)
next
  case (Cons x xs)
  have st: "store h (p, i) x = Inr (set_block h p (ys[i := x]))"
    using Cons.prems by (simp add: store_block)
  have IH: "move_from_list (set_block h p (ys[i := x])) xs (p, Suc i) =
        Inr (set_block (set_block h p (ys[i := x])) p
              (take (Suc i) (ys[i := x]) @ xs @ drop (Suc i + length xs) (ys[i := x])))"
    using Cons.prems by (intro Cons.IH) auto
  have eq: "take (Suc i) (ys[i := x]) @ xs @ drop (Suc i + length xs) (ys[i := x])
            = take i ys @ (x # xs) @ drop (i + length (x # xs)) ys"
    using Cons.prems by (simp add: take_Suc_conv_app_nth)
  show ?case using st IH eq by (simp add: ptr_add_def)
qed


lemma std_copy_empty: "std_copy h (p, i) (p, i) dst = Inr h"
  by (subst std_copy.simps) simp

lemma std_copy_across:
  "p \<noteq> q \<Longrightarrow> blocks h p = Some xs \<Longrightarrow> blocks h q = Some ys \<Longrightarrow>
   i \<le> j \<Longrightarrow> j \<le> length xs \<Longrightarrow> k + (j - i) \<le> length ys \<Longrightarrow>
   std_copy h (p, i) (p, j) (q, k) =
     Inr (set_block h q (take k ys @ take (j - i) (drop i xs) @ drop (k + (j - i)) ys))"
proof (induction "j - i" arbitrary: i k h ys)
  case 0
  then show ?case by (simp add: set_block_same std_copy_empty)
next
  case (Suc n)
  then have lt: "i < j" "i < length xs" "k < length ys" by auto
  have ld: "load h (p, i) = Inr (xs ! i)"
    using Suc.prems lt by (simp add: load_block)
  have st: "store h (q, k) (xs ! i) = Inr (set_block h q (ys[k := xs ! i]))"
    using Suc.prems lt by (simp add: store_block)
  have step: "std_copy h (p, i) (p, j) (q, k)
              = std_copy (set_block h q (ys[k := xs ! i])) (p, Suc i) (p, j) (q, Suc k)"
    using lt ld st by (subst std_copy.simps) (simp add: ptr_add_def)
  have IH: "std_copy (set_block h q (ys[k := xs ! i])) (p, Suc i) (p, j) (q, Suc k) =
        Inr (set_block (set_block h q (ys[k := xs ! i])) q
              (take (Suc k) (ys[k := xs ! i]) @ take (j - Suc i) (drop (Suc i) xs)
               @ drop (Suc k + (j - Suc i)) (ys[k := xs ! i])))"
    using Suc.hyps(2) Suc.prems lt by (intro Suc.hyps(1)) auto
  have ji: "j - i = Suc (j - Suc i)" using lt by simp
  have eq: "take (Suc k) (ys[k := xs ! i]) @ take (j - Suc i) (drop (Suc i) xs)
               @ drop (Suc k + (j - Suc i)) (ys[k := xs ! i])
            = take k ys @ take (j - i) (drop i xs) @ drop (k + (j - i)) ys"
    using lt by (simp add: ji take_Suc_conv_app_nth Cons_nth_drop_Suc [symmetric])
  show ?case by (simp only: step IH eq set_block_twice)
qed

lemma std_copy_shift_left:
  "blocks h p = Some xs \<Longrightarrow> Suc i \<le> j \<Longrightarrow> j \<le> length xs \<Longrightarrow>
   std_copy h (p, Suc i) (p, j) (p, i) =
     Inr (set_block h p (take i xs @ drop (Suc i) (take j xs) @ drop (j - 1) xs))"
proof (induction "j - Suc i" arbitrary: i h xs)
  case 0
  then have "j = Suc i" by simp
  then show ?case using 0 by (simp add: set_block_same std_copy_empty)
next
  case (Suc n)
  then have lt: "Suc i < j" "Suc i < length xs" by auto
  have ld: "load h (p, Suc i) = Inr (xs ! Suc i)"
    using Suc.prems lt by (simp add: load_block)
  have st: "store h (p, i) (xs ! Suc i) = Inr (set_block h p (xs[i := xs ! Suc i]))"
    using Suc.prems lt by (simp add: store_block)
  have step: "std_copy h (p, Suc i) (p, j) (p, i)
              = std_copy (set_block h p (xs[i := xs ! Suc i])) (p, Suc (Suc i)) (p, j) (p, Suc i)"
    using lt ld st by (subst std_copy.simps) (simp add: ptr_add_def)
  have IH: "std_copy (set_block h p (xs[i := xs ! Suc i])) (p, Suc (Suc i)) (p, j) (p, Suc i) =
        Inr (set_block (set_block h p (xs[i := xs ! Suc i])) p
              (take (Suc i) (xs[i := xs ! Suc i]) @ drop (Suc (Suc i)) (take j (xs[i := xs ! Suc i]))
               @ drop (j - 1) (xs[i := xs ! Suc i])))"
    using Suc.hyps(2) Suc.prems lt by (intro Suc.hyps(1)) auto
  have d: "drop (Suc i) (take j xs) = xs ! Suc i # drop (Suc (Suc i)) (take j xs)"
    using lt Suc.prems Cons_nth_drop_Suc [of "Suc i" "take j xs"] by simp
  have t1: "take (Suc i) (xs[i := xs ! Suc i]) = take i xs @ [xs ! Suc i]"
    using lt by (simp add: take_Suc_conv_app_nth)
  have t2: "drop (Suc (Suc i)) (take j (xs[i := xs ! Suc i])) = drop (Suc (Suc i)) (take j xs)"
    by (simp add: take_update_swap)
  have t3: "drop (j - 1) (xs[i := xs ! Suc i]) = drop (j - 1) xs"
    using lt by simp
  have eq: "take (Suc i) (xs[i := xs ! Suc i]) @ drop (Suc (Suc i)) (take j (xs[i := xs ! Suc i]))
               @ drop (j - 1) (xs[i := xs ! Suc i])
            = take i xs @ drop (Suc i) (take j xs) @ drop (j - 1) xs"
    by (simp only: t1 t2 t3 d) simp
  show ?case by (simp only: step IH eq set_block_twice)
qed



section \<open>Allocation, the constructors and \<open>ChangeCapacity\<close>\<close>

lemma blocks_alloc_block [simp]: "blocks (alloc_block h xs) = (blocks h)(brk h \<mapsto> xs)"
  by (simp add: alloc_block_def)

lemma brk_alloc_block [simp]: "brk (alloc_block h xs) = Suc (brk h)"
  by (simp add: alloc_block_def)

lemma block_alloc_block_new [simp]: "block (alloc_block h xs) (brk h) = xs"
  by (simp add: block_def)

lemma set_block_alloc_block [simp]: "set_block (alloc_block h xs) (brk h) ys = alloc_block h ys"
  by (simp add: set_block_def alloc_block_def)

lemma heap_ok_alloc_block: "heap_ok h \<Longrightarrow> heap_ok (alloc_block h xs)"
  by (auto simp: heap_ok_def)

lemma heap_ok_live: "heap_ok h \<Longrightarrow> blocks h p = Some xs \<Longrightarrow> 0 < p \<and> p < brk h"
  by (metis heap_ok_def not_le_imp_less option.distinct(1) gr0I)

lemma heap_ok_set_block: "heap_ok h \<Longrightarrow> blocks h p \<noteq> None \<Longrightarrow> heap_ok (set_block h p xs)"
  using heap_ok_live [of h p] by (auto simp: heap_ok_def)

lemma blocks_free_block: "blocks (free_block h p) q = (if q = p \<and> p \<noteq> 0 then None else blocks h q)"
  by (simp add: free_block_def)

lemma brk_free_block [simp]: "brk (free_block h p) = brk h"
  by (simp add: free_block_def)

lemma heap_ok_free_block: "heap_ok h \<Longrightarrow> heap_ok (free_block h p)"
  by (auto simp: heap_ok_def free_block_def)

lemma ArrayPtr_delete_ok:
  "p = 0 \<or> blocks h p \<noteq> None \<Longrightarrow> ArrayPtr_delete h p = Inr (free_block h p)"
  by (auto simp: ArrayPtr_delete_def free_block_def)

lemma ArrayPtr_new_0 [simp]: "ArrayPtr_new d 0 h = (h, 0)"
  by (simp add: ArrayPtr_new_def)

lemma ArrayPtr_new_pos: "0 < n \<Longrightarrow> ArrayPtr_new d n h = (alloc_block h (replicate n d), brk h)"
  by (simp add: ArrayPtr_new_def alloc_block_def)

lemma SimpleVector_size_0 [simp]: "SimpleVector_size d h 0 = Inr (h, SimpleVector_default)"
  by (simp add: SimpleVector_size_def SimpleVector_size_rvalue_def ptr_add_def
      move_value_loop_empty SimpleVector_default_def)

lemma SimpleVector_size_rvalue_pos:
  "0 < n \<Longrightarrow> SimpleVector_size_rvalue d h n v =
     Inr (alloc_block h (v # replicate (n - 1) d), \<lparr>m_arr = brk h, m_size = n, m_capacity = n\<rparr>)"
proof -
  assume n: "0 < n"
  have "move_value_loop d (alloc_block h (replicate n d)) (brk h, 0) (brk h, n) v =
        Inr (set_block (alloc_block h (replicate n d)) (brk h)
          (take 0 (replicate n d) @ take (n - 0) (v # replicate (n - Suc 0) d) @ drop n (replicate n d)))"
    by (rule move_value_loop_block) simp_all
  then show ?thesis using n
    by (simp add: SimpleVector_size_rvalue_def ArrayPtr_new_pos ptr_add_def)
qed

lemma SimpleVector_size_pos:
  "0 < n \<Longrightarrow> SimpleVector_size d h n =
     Inr (alloc_block h (replicate n d), \<lparr>m_arr = brk h, m_size = n, m_capacity = n\<rparr>)"
proof -
  assume n: "0 < n"
  then have "d # replicate (n - 1) d = replicate n d" by (cases n) simp_all
  then show ?thesis using n by (simp add: SimpleVector_size_def SimpleVector_size_rvalue_pos)
qed

lemma SimpleVector_size_value_pos:
  "0 < n \<Longrightarrow> SimpleVector_size_value d h n v =
     Inr (alloc_block h (replicate n v), \<lparr>m_arr = brk h, m_size = n, m_capacity = n\<rparr>)"
proof -
  assume n: "0 < n"
  have "std_fill (alloc_block h (replicate n d)) (brk h, 0) (brk h, n) v =
        Inr (set_block (alloc_block h (replicate n d)) (brk h)
          (take 0 (replicate n d) @ replicate (n - 0) v @ drop n (replicate n d)))"
    by (rule std_fill_block) simp_all
  then show ?thesis using n
    by (simp add: SimpleVector_size_value_def ArrayPtr_new_pos ptr_add_def begin_it_def end_it_def)
qed

lemma SimpleVector_init_pos:
  "init \<noteq> [] \<Longrightarrow> SimpleVector_init d h init =
     Inr (alloc_block h init, \<lparr>m_arr = brk h, m_size = length init, m_capacity = length init\<rparr>)"
proof -
  assume n: "init \<noteq> []"
  have "move_from_list (alloc_block h (replicate (length init) d)) init (brk h, 0) =
        Inr (set_block (alloc_block h (replicate (length init) d)) (brk h)
          (take 0 (replicate (length init) d) @ init @ drop (0 + length init) (replicate (length init) d)))"
    by (rule move_from_list_block) simp_all
  then show ?thesis using n
    by (simp add: SimpleVector_init_def ArrayPtr_new_pos)
qed

text \<open>A vector that \<open>owns\<close> its block has either no block and no elements, or a live block.\<close>

lemma owns_cases:
  assumes "heap_ok h" "owns h v"
  obtains (null) "m_arr v = 0" "m_size v = 0" "block h (m_arr v) = []"
  | (live) xs where "m_arr v \<noteq> 0" "m_arr v < brk h" "blocks h (m_arr v) = Some xs"
      "block h (m_arr v) = xs" "m_size v \<le> length xs"
proof (cases "blocks h (m_arr v)")
  case None
  with assms have "m_arr v = 0" "m_size v = 0" "block h (m_arr v) = []"
    by (auto simp: owns_def block_def)
  then show ?thesis by (rule null)
next
  case (Some xs)
  with assms heap_ok_live [of h "m_arr v" xs] show ?thesis
    by (intro live [of xs]) (auto simp: owns_def block_def)
qed

lemma std_copy_from_owned:
  assumes "heap_ok h" "owns h v" "blocks h q = Some ys" "q \<noteq> m_arr v" "m_size v \<le> length ys"
  shows "std_copy h (begin_it v) (end_it v) (q, 0) = Inr (set_block h q (elems h v @ drop (m_size v) ys))"
  using assms(1,2)
proof (cases rule: owns_cases)
  case null
  then show ?thesis using assms
    by (simp add: begin_it_def end_it_def ptr_add_def std_copy_empty elems_def set_block_same)
next
  case (live xs)
  have "std_copy h (m_arr v, 0) (m_arr v, m_size v) (q, 0) =
     Inr (set_block h q (take 0 ys @ take (m_size v - 0) (drop 0 xs) @ drop (0 + (m_size v - 0)) ys))"
    using live assms by (intro std_copy_across) auto
  then show ?thesis using live
    by (simp add: begin_it_def end_it_def ptr_add_def elems_def)
qed

lemma ChangeCapacity_eq:
  assumes "heap_ok h" "owns h v" "0 < n" "m_size v \<le> n"
  shows "ChangeCapacity d h v n =
     Inr (free_block (alloc_block h (elems h v @ replicate (n - m_size v) d)) (m_arr v),
          \<lparr>m_arr = brk h, m_size = m_size v, m_capacity = n\<rparr>)"
proof -
  let ?h1 = "alloc_block h (replicate n d)"
  have lt: "m_arr v < brk h"
    using assms(1,2) by (cases rule: owns_cases) (use assms(1) in \<open>auto simp: heap_ok_def\<close>)
  have ok1: "heap_ok ?h1" using assms(1) by (rule heap_ok_alloc_block)
  have own1: "owns ?h1 v"
    using assms(2) lt by (auto simp: owns_def block_def)
  have el: "elems ?h1 v = elems h v"
    using lt by (simp add: elems_def block_def)
  have "std_copy ?h1 (begin_it v) (end_it v) (brk h, 0)
        = Inr (set_block ?h1 (brk h) (elems ?h1 v @ drop (m_size v) (replicate n d)))"
    using ok1 own1 assms lt by (intro std_copy_from_owned) auto
  then have mv: "std_move ?h1 (begin_it v) (end_it v) (brk h, 0)
        = Inr (alloc_block h (elems h v @ replicate (n - m_size v) d))"
    by (simp add: std_move_def el)
  have del: "ArrayPtr_delete (alloc_block h (elems h v @ replicate (n - m_size v) d)) (m_arr v)
        = Inr (free_block (alloc_block h (elems h v @ replicate (n - m_size v) d)) (m_arr v))"
    using assms(2) lt by (intro ArrayPtr_delete_ok) (auto simp: owns_def)
  show ?thesis
    using assms(3) mv del
    by (simp add: ChangeCapacity_def SimpleVector_size_pos begin_it_def swap_rvalue_def
        swap_vec_def Clear_def destroy_def)
qed

section \<open>Growth keeps the invariant\<close>

lemma vector_inv_owns: "vector_inv h v \<Longrightarrow> owns h v"
  by (auto simp: vector_inv_def storage_inv_def owns_def block_def split: if_splits option.splits)

lemma vector_inv_cases:
  assumes "vector_inv h v"
  obtains (null) "m_arr v = 0" "m_size v = 0" "m_capacity v = 0"
  | (live) xs where "m_arr v \<noteq> 0" "blocks h (m_arr v) = Some xs" "length xs = m_capacity v"
      "m_size v \<le> m_capacity v"
  using assms
  by (auto simp: vector_inv_def storage_inv_def split: if_splits option.splits)

lemma frame_refl [simp]: "frame p h h"
  by (simp add: frame_def)

lemma frame_set_block: "frame p h (set_block h p xs)"
  by (simp add: frame_def)

lemma frame_trans_same: "frame p h1 h2 \<Longrightarrow> frame p h2 h3 \<Longrightarrow> frame p h1 h3"
  by (auto simp: frame_def)

lemma ChangeCapacity_correct:
  assumes "heap_ok h" "owns h v" "0 < n" "m_size v \<le> n"
  shows "\<exists>h1 v1. ChangeCapacity d h v n = Inr (h1, v1) \<and> heap_ok h1 \<and> vector_inv h1 v1
           \<and> m_size v1 = m_size v \<and> m_capacity v1 = n \<and> elems h1 v1 = elems h v
           \<and> blocks h1 (m_arr v1) = Some (elems h v @ replicate (n - m_size v) d)
           \<and> m_arr v1 = brk h \<and> brk h1 = Suc (brk h) \<and> frame (m_arr v) h h1"
proof -
  let ?ys = "elems h v @ replicate (n - m_size v) d"
  let ?h1 = "free_block (alloc_block h ?ys) (m_arr v)"
  let ?v1 = "\<lparr>m_arr = brk h, m_size = m_size v, m_capacity = n\<rparr>"
  have lt: "m_arr v < brk h"
    using assms(1,2) by (cases rule: owns_cases) (use assms(1) in \<open>auto simp: heap_ok_def\<close>)
  have len: "length (elems h v) = m_size v"
    using assms(2) by (simp add: elems_def owns_def)
  have b: "blocks ?h1 (brk h) = Some ?ys"
    using lt by (simp add: blocks_free_block)
  have ok: "heap_ok ?h1"
    using assms(1) by (intro heap_ok_free_block heap_ok_alloc_block)
  have pos: "0 < brk h" using assms(1) by (simp add: heap_ok_def)
  have inv: "vector_inv ?h1 ?v1"
    using b pos assms(4) len by (simp add: vector_inv_def storage_inv_def)
  have el: "elems ?h1 ?v1 = elems h v"
    using b len by (simp add: elems_def block_def)
  have fr: "frame (m_arr v) h ?h1"
    by (auto simp: frame_def blocks_free_block)
  show ?thesis
    using ChangeCapacity_eq [OF assms, of d] ok inv el b fr by simp
qed

lemma grow_if_full_correct:
  assumes "heap_ok h" "vector_inv h v"
  shows "\<exists>h1 v1 xs. grow_if_full d h v = Inr (h1, v1) \<and> heap_ok h1 \<and> vector_inv h1 v1
           \<and> m_size v1 = m_size v \<and> m_size v1 < m_capacity v1
           \<and> m_capacity v1 = (if m_size v = m_capacity v
                                then (if m_size v \<noteq> 0 then 2 * m_size v else 1)
                                else m_capacity v)
           \<and> elems h1 v1 = elems h v \<and> m_arr v1 \<noteq> 0
           \<and> blocks h1 (m_arr v1) = Some xs \<and> length xs = m_capacity v1
           \<and> frame (m_arr v) h h1 \<and> (m_arr v1 = m_arr v \<or> m_arr v1 = brk h)
           \<and> brk h \<le> brk h1"
proof (cases "m_size v = m_capacity v")
  case True
  let ?n = "if m_size v \<noteq> 0 then 2 * m_size v else 1"
  have n: "0 < ?n" "m_size v \<le> ?n" by auto
  obtain h1 v1 where r: "ChangeCapacity d h v ?n = Inr (h1, v1)" "heap_ok h1" "vector_inv h1 v1"
      "m_size v1 = m_size v" "m_capacity v1 = ?n" "elems h1 v1 = elems h v"
      "blocks h1 (m_arr v1) = Some (elems h v @ replicate (?n - m_size v) d)"
      "m_arr v1 = brk h" "brk h1 = Suc (brk h)" "frame (m_arr v) h h1"
    using ChangeCapacity_correct [OF assms(1) vector_inv_owns [OF assms(2)] n, of d] by blast
  have g: "grow_if_full d h v = Inr (h1, v1)"
    using True r(1) by (simp add: grow_if_full_def split: if_splits)
  have pos: "0 < brk h" using assms(1) by (simp add: heap_ok_def)
  have len: "length (elems h v @ replicate (?n - m_size v) d) = m_capacity v1"
    using vector_inv_owns [OF assms(2)] r(5) by (auto simp: elems_def owns_def)
  have "m_size v1 < m_capacity v1" using r(4,5) by auto
  moreover have "m_capacity v1 = (if m_size v = m_capacity v
                                then (if m_size v \<noteq> 0 then 2 * m_size v else 1)
                                else m_capacity v)"
    using r(5) True by simp
  ultimately show ?thesis
    using g r pos len by (intro exI conjI) (assumption | simp)+
next
  case False
  from assms(2) show ?thesis
  proof (cases rule: vector_inv_cases)
    case null
    with False show ?thesis by simp
  next
    case (live xs)
    then show ?thesis
      using False assms by (simp add: grow_if_full_def)
  qed
qed

section \<open>\<open>PushBack\<close>, \<open>Insert\<close> and \<open>Erase\<close> on a vector that satisfies the invariant\<close>

lemma take_append_exact: "length A = n \<Longrightarrow> take n (A @ B) = A"
  by simp

lemma frame_store_after:
  "frame p h h1 \<Longrightarrow> a = p \<or> brk h \<le> a \<Longrightarrow> frame p h (set_block h1 a ys)"
  by (auto simp: frame_def)

lemma vector_inv_set_block:
  "length ys = m_capacity v \<Longrightarrow> m_size v \<le> m_capacity v \<Longrightarrow> m_arr v \<noteq> 0 \<Longrightarrow>
   vector_inv (set_block h (m_arr v) ys) v"
  by (simp add: vector_inv_def storage_inv_def)

text \<open>
  An object that is not an element of the vector keeps its value while the vector's own
  block and new blocks change.
\<close>

lemma read_ref_outside:
  assumes "heap_ok h" "refers_outside h v r x" "frame (m_arr v) h h1"
  shows "read_ref h1 r = Inr x"
proof (cases r)
  case (Outside y)
  then show ?thesis using assms(2) by (simp add: refers_outside_def read_ref_def)
next
  case (Element p)
  then have ne: "fst p \<noteq> m_arr v" and ld: "load h p = Inr x"
    using assms(2) by (simp_all add: refers_outside_def)
  from ld have "blocks h (fst p) \<noteq> None"
    by (auto simp: load_def block_def split: if_splits option.splits)
  then have "fst p < brk h" using assms(1) heap_ok_live [of h "fst p"] by auto
  then have "blocks h1 (fst p) = blocks h (fst p)" using assms(3) ne by (simp add: frame_def)
  then have "load h1 p = load h p" by (simp add: load_def block_def)
  then show ?thesis using Element ld by (simp add: read_ref_def)
qed





lemma PushBack_correct:
  assumes "heap_ok h" "vector_inv h v" "refers_outside h v r x"
  shows "\<exists>h' v'. PushBack d h v r = Inr (h', v') \<and> heap_ok h' \<and> vector_inv h' v'
           \<and> elems h' v' = elems h v @ [x] \<and> m_size v' = Suc (m_size v)
           \<and> m_capacity v' = (if m_size v = m_capacity v
                                then (if m_size v \<noteq> 0 then 2 * m_size v else 1)
                                else m_capacity v)
           \<and> frame (m_arr v) h h' \<and> (m_arr v' = m_arr v \<or> m_arr v' = brk h) \<and> brk h \<le> brk h'"
proof -
  obtain h1 v1 xs where g: "grow_if_full d h v = Inr (h1, v1)" "heap_ok h1" "vector_inv h1 v1"
      "m_size v1 = m_size v" "m_size v1 < m_capacity v1"
      "m_capacity v1 = (if m_size v = m_capacity v
                                then (if m_size v \<noteq> 0 then 2 * m_size v else 1)
                                else m_capacity v)"
      "elems h1 v1 = elems h v" "m_arr v1 \<noteq> 0"
      "blocks h1 (m_arr v1) = Some xs" "length xs = m_capacity v1"
      "frame (m_arr v) h h1" "m_arr v1 = m_arr v \<or> m_arr v1 = brk h" "brk h \<le> brk h1"
    using grow_if_full_correct [OF assms(1,2), of d] by blast
  let ?h2 = "set_block h1 (m_arr v1) (xs[m_size v1 := x])"
  let ?v2 = "v1\<lparr>m_size := m_size v1 + 1\<rparr>"
  have rd: "read_ref h1 r = Inr x"
    using assms(1,3) g(11) by (rule read_ref_outside)
  have st: "store h1 (m_arr v1, m_size v1) x = Inr ?h2"
    using g by (intro store_block) auto
  have p: "PushBack d h v r = Inr (?h2, ?v2)"
    using g(1) rd st by (simp add: PushBack_def)
  have ok: "heap_ok ?h2" using g by (intro heap_ok_set_block) auto
  have inv: "vector_inv ?h2 ?v2"
    using g vector_inv_set_block [of "xs[m_size v1 := x]" ?v2 h1] by simp
  have e1: "elems h1 v1 = take (m_size v1) xs" using g by (simp add: elems_def block_def)
  have el: "elems ?h2 ?v2 = elems h v @ [x]"
    using g e1 by (simp add: elems_def take_Suc_conv_app_nth)
  have fr: "frame (m_arr v) h ?h2"
    using g by (intro frame_store_after) auto
  show ?thesis
    using p ok inv el fr g by (intro exI conjI) (assumption | simp)+
qed





lemma Erase_correct:
  assumes "heap_ok h" "owns h v" "i < m_size v"
  shows "\<exists>h'. Erase h v (m_arr v, i) = Inr (h', v\<lparr>m_size := m_size v - 1\<rparr>, (m_arr v, i))
           \<and> heap_ok h' \<and> owns h' (v\<lparr>m_size := m_size v - 1\<rparr>)
           \<and> (vector_inv h v \<longrightarrow> vector_inv h' (v\<lparr>m_size := m_size v - 1\<rparr>))
           \<and> elems h' (v\<lparr>m_size := m_size v - 1\<rparr>) = take i (elems h v) @ drop (Suc i) (elems h v)
           \<and> length (block h' (m_arr v)) = length (block h (m_arr v))
           \<and> frame (m_arr v) h h' \<and> brk h' = brk h"
  using assms(1,2)
proof (cases rule: owns_cases)
  case null
  with assms(3) show ?thesis by simp
next
  case (live xs)
  let ?n = "m_size v"
  let ?a = "m_arr v"
  let ?ys = "take i xs @ drop (Suc i) (take ?n xs) @ drop (?n - 1) xs"
  let ?h1 = "set_block h ?a ?ys"
  let ?v1 = "v\<lparr>m_size := ?n - 1\<rparr>"
  have mv: "std_move h (?a, Suc i) (?a, ?n) (?a, i) = Inr ?h1"
    unfolding std_move_def using live assms(3) by (intro std_copy_shift_left) auto
  have er: "Erase h v (?a, i) = Inr (?h1, ?v1, (?a, i))"
    using mv assms(3)
    by (simp add: Erase_def ptr_le_def ptr_less_def begin_it_def end_it_def ptr_add_def
        std_distance_def)
  have leny: "length ?ys = length xs" using live assms(3) by simp
  have ok: "heap_ok ?h1" using assms(1) live by (intro heap_ok_set_block) auto
  have own: "owns ?h1 ?v1" using live leny by (simp add: owns_def)
  have inv: "vector_inv h v \<longrightarrow> vector_inv ?h1 ?v1"
    using live leny by (auto simp: vector_inv_def storage_inv_def)
  have lenA: "length (take i xs @ drop (Suc i) (take ?n xs)) = ?n - 1"
    using live assms(3) by simp
  have "take (?n - 1) ((take i xs @ drop (Suc i) (take ?n xs)) @ drop (?n - 1) xs)
        = take i xs @ drop (Suc i) (take ?n xs)"
    by (rule take_append_exact [OF lenA])
  moreover have "take i (take ?n xs) = take i xs"
    using assms(3) by (simp add: min_def)
  ultimately have el: "elems ?h1 ?v1 = take i (elems h v) @ drop (Suc i) (elems h v)"
    using live by (simp add: elems_def)
  show ?thesis
    using er ok own inv el leny live by (intro exI conjI) (assumption | simp add: frame_set_block)+
qed

section \<open>\<open>Resize\<close> and \<open>Reserve\<close>\<close>

lemma Resize_shrink: "n \<le> m_size v \<Longrightarrow> Resize d h v n = Inr (h, v\<lparr>m_size := n\<rparr>)"
  by (simp add: Resize_def)

lemma Resize_within:
  assumes "heap_ok h" "vector_inv h v" "m_size v < n" "n \<le> m_capacity v"
  shows "\<exists>h'. Resize d h v n = Inr (h', v\<lparr>m_size := n\<rparr>) \<and> heap_ok h'
           \<and> vector_inv h' (v\<lparr>m_size := n\<rparr>)
           \<and> elems h' (v\<lparr>m_size := n\<rparr>) = elems h v @ replicate (n - m_size v) d
           \<and> frame (m_arr v) h h' \<and> brk h' = brk h"
  using assms(2)
proof (cases rule: vector_inv_cases)
  case null
  with assms show ?thesis by simp
next
  case (live xs)
  let ?ys = "take (m_size v) xs @ replicate (n - m_size v) d @ drop n xs"
  let ?h1 = "set_block h (m_arr v) ?ys"
  have fl: "std_fill h (m_arr v, m_size v) (m_arr v, n) d = Inr ?h1"
    using live assms by (intro std_fill_block) auto
  have r: "Resize d h v n = Inr (?h1, v\<lparr>m_size := n\<rparr>)"
    using assms(3,4) fl by (simp add: Resize_def begin_it_def ptr_add_def)
  have leny: "length ?ys = m_capacity v" using live assms by simp
  have ok: "heap_ok ?h1" using assms(1) live by (intro heap_ok_set_block) auto
  have inv: "vector_inv ?h1 (v\<lparr>m_size := n\<rparr>)"
    using vector_inv_set_block [of ?ys "v\<lparr>m_size := n\<rparr>" h] leny live assms(4) by simp
  have lenA: "length (take (m_size v) xs @ replicate (n - m_size v) d) = n"
    using live assms by simp
  have "take n ((take (m_size v) xs @ replicate (n - m_size v) d) @ drop n xs)
        = take (m_size v) xs @ replicate (n - m_size v) d"
    by (rule take_append_exact [OF lenA])
  then have el: "elems ?h1 (v\<lparr>m_size := n\<rparr>) = elems h v @ replicate (n - m_size v) d"
    using live by (simp add: elems_def block_def)
  show ?thesis
    using r ok inv el by (intro exI conjI) (assumption | simp add: frame_set_block)+
qed

lemma Resize_grow:
  assumes "heap_ok h" "owns h v" "m_capacity v < n" "m_size v < n"
  shows "\<exists>h' v'. Resize d h v n = Inr (h', v') \<and> heap_ok h' \<and> vector_inv h' v'
           \<and> m_size v' = n \<and> m_capacity v' = n
           \<and> elems h' v' = elems h v @ replicate (n - m_size v) d
           \<and> frame (m_arr v) h h' \<and> m_arr v' = brk h"
proof -
  have n: "0 < n" "m_size v \<le> n" using assms by auto
  obtain h1 v1 where r: "ChangeCapacity d h v n = Inr (h1, v1)" "heap_ok h1" "vector_inv h1 v1"
      "m_size v1 = m_size v" "m_capacity v1 = n" "elems h1 v1 = elems h v"
      "blocks h1 (m_arr v1) = Some (elems h v @ replicate (n - m_size v) d)"
      "m_arr v1 = brk h" "brk h1 = Suc (brk h)" "frame (m_arr v) h h1"
    using ChangeCapacity_correct [OF assms(1,2) n, of d] by blast
  have rs: "Resize d h v n = Inr (h1, v1\<lparr>m_size := n\<rparr>)"
    using assms(3,4) r(1) by (simp add: Resize_def)
  have len: "length (elems h v) = m_size v"
    using assms(2) by (simp add: elems_def owns_def)
  have inv: "vector_inv h1 (v1\<lparr>m_size := n\<rparr>)"
    using r(3,5) by (auto simp: vector_inv_def storage_inv_def split: option.splits if_splits)
  have el: "elems h1 (v1\<lparr>m_size := n\<rparr>) = elems h v @ replicate (n - m_size v) d"
    using r(7) len n by (simp add: elems_def block_def)
  show ?thesis
    using rs r inv el by (intro exI conjI) (assumption | simp)+
qed

lemma Reserve_capacity_correct:
  assumes "heap_ok h" "vector_inv h v"
  shows "\<exists>h' v'. Reserve_capacity d h v n = Inr (h', v') \<and> heap_ok h' \<and> vector_inv h' v'
           \<and> m_size v' = m_size v \<and> m_capacity v' = max n (m_capacity v)
           \<and> elems h' v' = elems h v \<and> frame (m_arr v) h h'
           \<and> (m_arr v' = m_arr v \<or> m_arr v' = brk h)"
proof (cases "m_capacity v < n")
  case True
  then have n: "0 < n" "m_size v \<le> n" using assms(2) by (auto simp: vector_inv_def)
  obtain h1 v1 where r: "ChangeCapacity d h v n = Inr (h1, v1)" "heap_ok h1" "vector_inv h1 v1"
      "m_size v1 = m_size v" "m_capacity v1 = n" "elems h1 v1 = elems h v"
      "m_arr v1 = brk h" "frame (m_arr v) h h1"
    using ChangeCapacity_correct [OF assms(1) vector_inv_owns [OF assms(2)] n, of d] by blast
  then show ?thesis using True by (simp add: Reserve_capacity_def max_def)
next
  case False
  then show ?thesis using assms by (simp add: Reserve_capacity_def max_def)
qed

section \<open>The copy and move constructors, computed\<close>

lemma SimpleVector_copy_eq:
  assumes "heap_ok h" "owns h a"
  shows "SimpleVector_copy d h a =
     Inr (if m_size a = 0 then (h, \<lparr>m_arr = 0, m_size = 0, m_capacity = m_capacity a\<rparr>)
          else (alloc_block h (elems h a),
                \<lparr>m_arr = brk h, m_size = m_size a, m_capacity = m_capacity a\<rparr>))"
proof (cases "m_size a = 0")
  case True
  then show ?thesis
    by (simp add: SimpleVector_copy_def GetSize_def GetCapacity_def begin_it_def end_it_def
        ptr_add_def std_copy_empty swap_vec_def SimpleVector_default_def destroy_def
        ArrayPtr_delete_def)
next
  case False
  let ?n = "m_size a"
  let ?h1 = "alloc_block h (replicate ?n d)"
  have lt: "m_arr a < brk h"
    using assms(1,2) by (cases rule: owns_cases) (use assms(1) in \<open>auto simp: heap_ok_def\<close>)
  have ok1: "heap_ok ?h1" using assms(1) by (rule heap_ok_alloc_block)
  have own1: "owns ?h1 a"
    using assms(2) lt by (auto simp: owns_def block_def)
  have el: "elems ?h1 a = elems h a"
    using lt by (simp add: elems_def block_def)
  have "std_copy ?h1 (begin_it a) (end_it a) (brk h, 0)
        = Inr (set_block ?h1 (brk h) (elems ?h1 a @ drop ?n (replicate ?n d)))"
    using ok1 own1 lt by (intro std_copy_from_owned) auto
  then have cp: "std_copy ?h1 (begin_it a) (end_it a) (brk h, 0) = Inr (alloc_block h (elems h a))"
    by (simp add: el)
  show ?thesis
    using False cp
    by (simp add: SimpleVector_copy_def GetSize_def GetCapacity_def SimpleVector_size_pos
        begin_it_def swap_vec_def SimpleVector_default_def destroy_def ArrayPtr_delete_def)
qed

lemma SimpleVector_move_eq:
  "SimpleVector_move d h a =
     (if m_size a = 0 then (h, a, \<lparr>m_arr = 0, m_size = 0, m_capacity = m_capacity a\<rparr>)
      else (alloc_block h (replicate (m_size a) d), a,
            \<lparr>m_arr = brk h, m_size = 0, m_capacity = m_capacity a\<rparr>))"
  by (simp add: SimpleVector_move_def ArrayPtr_new_pos Clear_def Let_def)

lemma swap_vec_eq: "swap_vec a b = (b, a)"
  by (cases a, cases b) (simp add: swap_vec_def)

lemma swap_rvalue_eq: "swap_rvalue a b = (b, a\<lparr>m_size := 0\<rparr>)"
  by (simp add: swap_rvalue_def swap_vec_eq Clear_def)

lemma assign_move_distinct:
  "this \<noteq> rhs \<Longrightarrow> assign_move (h, vs) this rhs =
     (if m_size (vs rhs) = 0 then (h, vs(this := (vs this)\<lparr>m_size := 0\<rparr>))
      else (h, vs(this := vs rhs,
                  rhs := \<lparr>m_arr = m_arr (vs this), m_size = 0, m_capacity = m_capacity (vs this)\<rparr>)))"
  by (cases "vs this") (simp add: assign_move_def IsEmpty_def Clear_def swap_rvalue_eq)

section \<open>The doubling policy\<close>





lemma elems_default [simp]: "elems h SimpleVector_default = []"
  by (simp add: elems_def SimpleVector_default_def)


section \<open>\<open>Resize\<close>, \<open>Insert\<close>, \<open>Erase\<close>: the cases\<close>

text \<open>
  C5. \<open>Resize(new_size)\<close> by cases. If \<open>new_size \<le> size_\<close> the size becomes
  \<open>new_size\<close> and nothing else changes: the heap, the block and the capacity are the same.
  Otherwise, for a vector that satisfies the invariant of the data model, the size becomes
  \<open>new_size\<close>, the old elements are kept in order, the elements from the old size to
  \<open>new_size\<close> are \<open>Type{}\<close>, and the capacity is unchanged if \<open>new_size \<le> capacity_\<close>
  and exactly \<open>new_size\<close> if not.
\<close>

theorem Resize_cases:
  "(new_size \<le> GetSize v \<longrightarrow>
      Resize d h v new_size = Inr (h, v\<lparr>m_size := new_size\<rparr>)
      \<and> GetCapacity (v\<lparr>m_size := new_size\<rparr>) = GetCapacity v
      \<and> elems h (v\<lparr>m_size := new_size\<rparr>) = take new_size (elems h v))
   \<and> (heap_ok h \<and> vector_inv h v \<and> GetSize v < new_size \<longrightarrow>
        (\<exists>h' v'. Resize d h v new_size = Inr (h', v')
           \<and> GetSize v' = new_size
           \<and> GetCapacity v' = (if new_size \<le> GetCapacity v then GetCapacity v else new_size)
           \<and> elems h' v' = elems h v @ replicate (new_size - GetSize v) d
           \<and> (\<forall>i < GetSize v. elems h' v' ! i = elems h v ! i)
           \<and> (\<forall>i. GetSize v \<le> i \<and> i < new_size \<longrightarrow> elems h' v' ! i = d)
           \<and> heap_ok h' \<and> vector_inv h' v'))"
proof (intro conjI impI)
  assume "new_size \<le> GetSize v"
  then show "Resize d h v new_size = Inr (h, v\<lparr>m_size := new_size\<rparr>)"
    by (simp add: Resize_shrink GetSize_def)
next
  show "GetCapacity (v\<lparr>m_size := new_size\<rparr>) = GetCapacity v"
    by (simp add: GetCapacity_def)
next
  assume "new_size \<le> GetSize v"
  then show "elems h (v\<lparr>m_size := new_size\<rparr>) = take new_size (elems h v)"
    by (simp add: elems_def GetSize_def min_def)
next
  assume a: "heap_ok h \<and> vector_inv h v \<and> GetSize v < new_size"
  then have len: "length (elems h v) = m_size v"
    using vector_inv_owns [of h v] by (simp add: elems_def owns_def)
  have nth: "(\<forall>i < GetSize v. (elems h v @ replicate (new_size - GetSize v) d) ! i = elems h v ! i)
           \<and> (\<forall>i. GetSize v \<le> i \<and> i < new_size \<longrightarrow>
                 (elems h v @ replicate (new_size - GetSize v) d) ! i = d)"
    using len by (auto simp: nth_append GetSize_def)
  show "\<exists>h' v'. Resize d h v new_size = Inr (h', v')
           \<and> GetSize v' = new_size
           \<and> GetCapacity v' = (if new_size \<le> GetCapacity v then GetCapacity v else new_size)
           \<and> elems h' v' = elems h v @ replicate (new_size - GetSize v) d
           \<and> (\<forall>i < GetSize v. elems h' v' ! i = elems h v ! i)
           \<and> (\<forall>i. GetSize v \<le> i \<and> i < new_size \<longrightarrow> elems h' v' ! i = d)
           \<and> heap_ok h' \<and> vector_inv h' v'"
  proof (cases "new_size \<le> m_capacity v")
    case True
    obtain h' where r: "Resize d h v new_size = Inr (h', v\<lparr>m_size := new_size\<rparr>)" "heap_ok h'"
        "vector_inv h' (v\<lparr>m_size := new_size\<rparr>)"
        "elems h' (v\<lparr>m_size := new_size\<rparr>) = elems h v @ replicate (new_size - m_size v) d"
      using Resize_within [of h v new_size d] a True by (auto simp: GetSize_def)
    show ?thesis
      using r True nth
      by (intro exI [of _ h'] exI [of _ "v\<lparr>m_size := new_size\<rparr>"])
         (simp add: GetSize_def GetCapacity_def)
  next
    case False
    obtain h' v' where r: "Resize d h v new_size = Inr (h', v')" "heap_ok h'" "vector_inv h' v'"
        "m_size v' = new_size" "m_capacity v' = new_size"
        "elems h' v' = elems h v @ replicate (new_size - m_size v) d"
      using Resize_grow [of h v new_size d] a False vector_inv_owns [of h v]
      by (auto simp: GetSize_def)
    show ?thesis
      using r False nth
      by (intro exI [of _ h'] exI [of _ v']) (simp add: GetSize_def GetCapacity_def)
  qed
qed


text \<open>
  C8. \<open>Erase(begin() + i)\<close> with \<open>i < size_\<close>: the elements before \<open>i\<close> stay, each
  element after \<open>i\<close> is one slot nearer the beginning, in order, the size shrinks by one, the
  capacity is unchanged, and the iterator returned is the position given, which now points
  at the element that followed the erased one, or is \<open>end()\<close> when the last was erased.
\<close>

theorem Erase_shifts:
  "heap_ok h \<and> owns h v \<and> i < GetSize v \<longrightarrow>
     (\<exists>h' v' it. Erase h v (ptr_add (begin_it v) i) = Inr (h', v', it)
        \<and> GetSize v' = GetSize v - 1 \<and> GetCapacity v' = GetCapacity v
        \<and> elems h' v' = take i (elems h v) @ drop (Suc i) (elems h v)
        \<and> (\<forall>k < i. elems h' v' ! k = elems h v ! k)
        \<and> (\<forall>k. i \<le> k \<and> k < GetSize v' \<longrightarrow> elems h' v' ! k = elems h v ! (k + 1))
        \<and> it = ptr_add (begin_it v) i \<and> it = ptr_add (begin_it v') i
        \<and> (i + 1 < GetSize v \<longrightarrow> load h' it = Inr (elems h v ! (i + 1)))
        \<and> (i + 1 = GetSize v \<longrightarrow> it = end_it v')
        \<and> heap_ok h' \<and> owns h' v' \<and> (vector_inv h v \<longrightarrow> vector_inv h' v'))"
proof
  assume a: "heap_ok h \<and> owns h v \<and> i < GetSize v"
  then have len: "length (elems h v) = m_size v" and i: "i < m_size v"
    by (simp_all add: elems_def owns_def GetSize_def)
  let ?v' = "v\<lparr>m_size := m_size v - 1\<rparr>"
  obtain h' where r: "Erase h v (m_arr v, i) = Inr (h', ?v', (m_arr v, i))" "heap_ok h'"
      "owns h' ?v'" "vector_inv h v \<longrightarrow> vector_inv h' ?v'"
      "elems h' ?v' = take i (elems h v) @ drop (Suc i) (elems h v)"
    using Erase_correct [of h v i] a i by blast
  let ?ys = "take i (elems h v) @ drop (Suc i) (elems h v)"
  have n1: "\<forall>k < i. ?ys ! k = elems h v ! k"
    using len i by (simp add: nth_append)
  have n2: "\<forall>k. i \<le> k \<and> k < m_size v - 1 \<longrightarrow> ?ys ! k = elems h v ! (k + 1)"
    using len i by (auto simp: nth_append)
  have ld: "i + 1 < m_size v \<longrightarrow> load h' (m_arr v, i) = Inr (elems h v ! (i + 1))"
  proof
    assume lt: "i + 1 < m_size v"
    then have "i < m_size ?v'" by simp
    then have "load h' (m_arr ?v', i) = Inr (elems h' ?v' ! i)"
      using r(3) by (intro load_owned) auto
    then show "load h' (m_arr v, i) = Inr (elems h v ! (i + 1))"
      using n2 lt r(5) by simp
  qed
  show "\<exists>h' v' it. Erase h v (ptr_add (begin_it v) i) = Inr (h', v', it)
        \<and> GetSize v' = GetSize v - 1 \<and> GetCapacity v' = GetCapacity v
        \<and> elems h' v' = take i (elems h v) @ drop (Suc i) (elems h v)
        \<and> (\<forall>k < i. elems h' v' ! k = elems h v ! k)
        \<and> (\<forall>k. i \<le> k \<and> k < GetSize v' \<longrightarrow> elems h' v' ! k = elems h v ! (k + 1))
        \<and> it = ptr_add (begin_it v) i \<and> it = ptr_add (begin_it v') i
        \<and> (i + 1 < GetSize v \<longrightarrow> load h' it = Inr (elems h v ! (i + 1)))
        \<and> (i + 1 = GetSize v \<longrightarrow> it = end_it v')
        \<and> heap_ok h' \<and> owns h' v' \<and> (vector_inv h v \<longrightarrow> vector_inv h' v')"
    using r n1 n2 ld
    by (intro exI [of _ h'] exI [of _ ?v'] exI [of _ "(m_arr v, i)"])
       (auto simp: ptr_add_def begin_it_def end_it_def GetSize_def GetCapacity_def)
qed

section \<open>Runs on concrete vectors\<close>

lemma brk_empty_heap [simp]: "brk empty_heap = 1"
  by (simp add: empty_heap_def)

lemma blocks_empty_heap [simp]: "blocks empty_heap p = None"
  by (simp add: empty_heap_def)

lemma heap_ok_example: "heap_ok (alloc_block empty_heap xs)"
  by (intro heap_ok_alloc_block heap_ok_empty)

lemma vector_inv_example:
  "n \<le> c \<Longrightarrow> length xs = c \<Longrightarrow>
   vector_inv (alloc_block empty_heap xs) \<lparr>m_arr = 1, m_size = n, m_capacity = c\<rparr>"
  by (simp add: vector_inv_def storage_inv_def)

lemma elems_example:
  "n = length xs \<Longrightarrow>
   elems (alloc_block empty_heap (xs @ ys)) \<lparr>m_arr = 1, m_size = n, m_capacity = c\<rparr> = xs"
  by (simp add: elems_def block_def)




theorem Resize_cases_witness:
  "Resize (0::int) (alloc_block empty_heap [1, 2, 3, 7]) \<lparr>m_arr = 1, m_size = 3, m_capacity = 4\<rparr> 2
     = Inr (alloc_block empty_heap [1, 2, 3, 7], \<lparr>m_arr = 1, m_size = 2, m_capacity = 4\<rparr>)
   \<and> elems (alloc_block empty_heap [1, 2, 3, 7 :: int]) \<lparr>m_arr = 1, m_size = 2, m_capacity = 4\<rparr> = [1, 2]
   \<and> heap_ok (alloc_block empty_heap [1, 2, 3, 7 :: int])
   \<and> vector_inv (alloc_block empty_heap [1, 2, 3, 7 :: int]) \<lparr>m_arr = 1, m_size = 3, m_capacity = 4\<rparr>
   \<and> (\<exists>h' v'. Resize (0::int) (alloc_block empty_heap [1, 2, 3, 7])
                 \<lparr>m_arr = 1, m_size = 3, m_capacity = 4\<rparr> 4 = Inr (h', v')
         \<and> GetSize v' = 4 \<and> GetCapacity v' = 4 \<and> elems h' v' = [1, 2, 3, 0])
   \<and> (\<exists>h' v'. Resize (0::int) (alloc_block empty_heap [1, 2, 3, 7])
                 \<lparr>m_arr = 1, m_size = 3, m_capacity = 4\<rparr> 6 = Inr (h', v')
         \<and> GetSize v' = 6 \<and> GetCapacity v' = 6 \<and> elems h' v' = [1, 2, 3, 0, 0, 0])"
proof -
  let ?h0 = "alloc_block empty_heap [1, 2, 3, 7 :: int]"
  let ?v0 = "\<lparr>m_arr = 1, m_size = 3, m_capacity = 4\<rparr>"
  have ok: "heap_ok ?h0" by (rule heap_ok_example)
  have inv: "vector_inv ?h0 ?v0" by (rule vector_inv_example) simp_all
  have el: "elems ?h0 ?v0 = [1, 2, 3]"
    using elems_example [of 3 "[1, 2, 3 :: int]" "[7]" 4] by simp
  have 1: "Resize (0::int) ?h0 ?v0 2 = Inr (?h0, \<lparr>m_arr = 1, m_size = 2, m_capacity = 4\<rparr>)
           \<and> elems ?h0 \<lparr>m_arr = 1, m_size = 2, m_capacity = 4\<rparr> = [1, 2]"
    using Resize_cases [of 2 ?v0 "0::int" ?h0] el by (simp add: GetSize_def)
  have 2: "\<exists>h' v'. Resize (0::int) ?h0 ?v0 4 = Inr (h', v')
         \<and> GetSize v' = 4 \<and> GetCapacity v' = 4 \<and> elems h' v' = [1, 2, 3, 0]"
    using Resize_cases [of 4 ?v0 "0::int" ?h0] ok inv el
    by (auto simp: GetSize_def GetCapacity_def)
  have r6: "replicate 3 (0::int) = [0, 0, 0]" by (simp add: numeral_3_eq_3)
  have 3: "\<exists>h' v'. Resize (0::int) ?h0 ?v0 6 = Inr (h', v')
         \<and> GetSize v' = 6 \<and> GetCapacity v' = 6 \<and> elems h' v' = [1, 2, 3, 0, 0, 0]"
    using Resize_cases [of 6 ?v0 "0::int" ?h0] ok inv el
    by (auto simp: GetSize_def GetCapacity_def r6)
  show ?thesis using 1 2 3 ok inv by blast
qed



theorem Erase_shifts_witness:
  "SimpleVector_init (0::int) empty_heap [1, 2, 3]
     = Inr (alloc_block empty_heap [1, 2, 3], \<lparr>m_arr = 1, m_size = 3, m_capacity = 3\<rparr>)
   \<and> heap_ok (alloc_block empty_heap [1, 2, 3 :: int])
   \<and> owns (alloc_block empty_heap [1, 2, 3 :: int]) \<lparr>m_arr = 1, m_size = 3, m_capacity = 3\<rparr>
   \<and> (\<exists>h' v' it. Erase (alloc_block empty_heap [1, 2, 3 :: int])
           \<lparr>m_arr = 1, m_size = 3, m_capacity = 3\<rparr>
           (begin_it \<lparr>m_arr = 1, m_size = 3, m_capacity = 3\<rparr>) = Inr (h', v', it)
         \<and> GetSize v' = 2 \<and> elems h' v' = [2, 3] \<and> it = begin_it v' \<and> load h' it = Inr 2)
   \<and> (\<exists>h' v' it. Erase (alloc_block empty_heap [1, 2, 3 :: int])
           \<lparr>m_arr = 1, m_size = 3, m_capacity = 3\<rparr>
           (ptr_add (begin_it \<lparr>m_arr = 1, m_size = 3, m_capacity = 3\<rparr>) 2) = Inr (h', v', it)
         \<and> GetSize v' = 2 \<and> elems h' v' = [1, 2] \<and> it = end_it v')"
proof -
  let ?h0 = "alloc_block empty_heap [1, 2, 3 :: int]"
  let ?v0 = "\<lparr>m_arr = 1, m_size = 3, m_capacity = 3\<rparr>"
  have init: "SimpleVector_init (0::int) empty_heap [1, 2, 3] = Inr (?h0, ?v0)"
    by (simp add: SimpleVector_init_pos)
  have ok: "heap_ok ?h0" by (rule heap_ok_example)
  have inv: "vector_inv ?h0 ?v0" by (rule vector_inv_example) simp_all
  then have own: "owns ?h0 ?v0" by (rule vector_inv_owns)
  have el: "elems ?h0 ?v0 = [1, 2, 3]"
    using elems_example [of 3 "[1, 2, 3 :: int]" "[]" 3] by simp
  have 1: "\<exists>h' v' it. Erase ?h0 ?v0 (begin_it ?v0) = Inr (h', v', it)
         \<and> GetSize v' = 2 \<and> elems h' v' = [2, 3] \<and> it = begin_it v' \<and> load h' it = Inr 2"
    using Erase_shifts [of ?h0 ?v0 0] ok own el
    by (auto simp: GetSize_def ptr_add_def begin_it_def)
  have 2: "\<exists>h' v' it. Erase ?h0 ?v0 (ptr_add (begin_it ?v0) 2) = Inr (h', v', it)
         \<and> GetSize v' = 2 \<and> elems h' v' = [1, 2] \<and> it = end_it v'"
    using Erase_shifts [of ?h0 ?v0 2] ok own el
    by (auto simp: GetSize_def ptr_add_def begin_it_def end_it_def)
  show ?thesis using init 1 2 ok own by blast
qed

section \<open>Comparison operators\<close>

lemma load_in_block: "i < length (block h p) \<Longrightarrow> load h (p, i) = Inr (block h p ! i)"
  by (simp add: load_def)

lemma drop_take_Cons:
  "i < n \<Longrightarrow> n \<le> length xs \<Longrightarrow> drop i (take n xs) = xs ! i # drop (Suc i) (take n xs)"
  using Cons_nth_drop_Suc [of i "take n xs"] by simp

lemma std_equal_blocks:
  "i \<le> n \<Longrightarrow> n \<le> length (block h p) \<Longrightarrow> j \<le> m \<Longrightarrow> m \<le> length (block h q) \<Longrightarrow>
   std_equal h (p, i) (p, n) (q, j) (q, m)
     = Inr (drop i (take n (block h p)) = drop j (take m (block h q)))"
proof (induction "n - i" arbitrary: i j)
  case 0
  then have "i = n" by simp
  then show ?case using 0
    by (subst std_equal.simps) (auto simp: prod_eq_iff)
next
  case (Suc k)
  then have lt: "i < n" by simp
  show ?case
  proof (cases "n - i = m - j")
    case False
    have len1: "length (drop i (take n (block h p))) = n - i"
      using Suc.prems by (simp add: min_absorb2)
    have len2: "length (drop j (take m (block h q))) = m - j"
      using Suc.prems by (simp add: min_absorb2)
    have "drop i (take n (block h p)) \<noteq> drop j (take m (block h q))"
      using False len1 len2 by metis
    then show ?thesis using False Suc.prems
      by (subst std_equal.simps) simp
  next
    case True
    then have ltj: "j < m" using lt Suc.prems by linarith
    have ld1: "load h (p, i) = Inr (block h p ! i)"
      using lt Suc.prems by (intro load_in_block) simp
    have ld2: "load h (q, j) = Inr (block h q ! j)"
      using ltj Suc.prems by (intro load_in_block) simp
    have IH: "std_equal h (p, Suc i) (p, n) (q, Suc j) (q, m)
              = Inr (drop (Suc i) (take n (block h p)) = drop (Suc j) (take m (block h q)))"
      using Suc.hyps(2) Suc.prems lt ltj by (intro Suc.hyps(1)) auto
    have c1: "drop i (take n (block h p)) = block h p ! i # drop (Suc i) (take n (block h p))"
      using lt Suc.prems by (intro drop_take_Cons) auto
    have c2: "drop j (take m (block h q)) = block h q ! j # drop (Suc j) (take m (block h q))"
      using ltj Suc.prems by (intro drop_take_Cons) auto
    have step: "std_equal h (p, i) (p, n) (q, j) (q, m) =
       (if block h p ! i = block h q ! j then std_equal h (p, Suc i) (p, n) (q, Suc j) (q, m)
        else Inr False)"
      using True lt ltj Suc.prems ld1 ld2
      by (subst std_equal.simps) (simp add: ptr_add_def)
    show ?thesis by (simp only: step IH c1 c2) simp
  qed
qed

lemma std_lexicographical_compare_blocks:
  fixes h :: "('a::linorder) heap"
  shows "i \<le> n \<Longrightarrow> n \<le> length (block h p) \<Longrightarrow> j \<le> m \<Longrightarrow> m \<le> length (block h q) \<Longrightarrow>
   std_lexicographical_compare h (p, i) (p, n) (q, j) (q, m)
     = Inr (drop i (take n (block h p)) < drop j (take m (block h q)))"
proof (induction "n - i" arbitrary: i j)
  case 0
  then have eq: "i = n" by simp
  show ?case
  proof (cases "j = m")
    case True
    then show ?thesis using eq 0
      by (subst std_lexicographical_compare.simps) simp
  next
    case False
    then have ltj: "j < m" using 0 by simp
    have c2: "drop j (take m (block h q)) = block h q ! j # drop (Suc j) (take m (block h q))"
      using ltj 0 by (intro drop_take_Cons) auto
    have "std_lexicographical_compare h (p, i) (p, n) (q, j) (q, m) = Inr True"
      using eq False 0 by (subst std_lexicographical_compare.simps) simp
    then show ?thesis using eq 0 by (simp add: c2)
  qed
next
  case (Suc k)
  then have lt: "i < n" by simp
  show ?case
  proof (cases "j = m")
    case True
    then show ?thesis using lt Suc.prems
      by (subst std_lexicographical_compare.simps) simp
  next
    case False
    then have ltj: "j < m" using Suc.prems by simp
    have ld1: "load h (p, i) = Inr (block h p ! i)"
      using lt Suc.prems by (intro load_in_block) simp
    have ld2: "load h (q, j) = Inr (block h q ! j)"
      using ltj Suc.prems by (intro load_in_block) simp
    have IH: "std_lexicographical_compare h (p, Suc i) (p, n) (q, Suc j) (q, m)
              = Inr (drop (Suc i) (take n (block h p)) < drop (Suc j) (take m (block h q)))"
      using Suc.hyps(2) Suc.prems lt ltj by (intro Suc.hyps(1)) auto
    have c1: "drop i (take n (block h p)) = block h p ! i # drop (Suc i) (take n (block h p))"
      using lt Suc.prems by (intro drop_take_Cons) auto
    have c2: "drop j (take m (block h q)) = block h q ! j # drop (Suc j) (take m (block h q))"
      using ltj Suc.prems by (intro drop_take_Cons) auto
    have step: "std_lexicographical_compare h (p, i) (p, n) (q, j) (q, m) =
       (if block h p ! i < block h q ! j then Inr True
        else if block h q ! j < block h p ! i then Inr False
        else std_lexicographical_compare h (p, Suc i) (p, n) (q, Suc j) (q, m))"
      using lt ltj Suc.prems ld1 ld2
      by (subst std_lexicographical_compare.simps) (simp add: ptr_add_def)
    show ?thesis by (simp only: step IH c1 c2) auto
  qed
qed

lemma length_elems: "owns h v \<Longrightarrow> length (elems h v) = m_size v"
  by (simp add: elems_def owns_def)

lemma op_eq_elems:
  assumes "owns h a" "owns h b"
  shows "op_eq h a b = Inr (elems h a = elems h b)"
proof (cases "m_size a = m_size b")
  case True
  have "std_equal h (m_arr a, 0) (m_arr a, m_size a) (m_arr b, 0) (m_arr b, m_size b)
        = Inr (drop 0 (take (m_size a) (block h (m_arr a)))
               = drop 0 (take (m_size b) (block h (m_arr b))))"
    using assms by (intro std_equal_blocks) (auto simp: owns_def)
  then show ?thesis using True
    by (simp add: op_eq_def GetSize_def begin_it_def end_it_def ptr_add_def elems_def)
next
  case False
  then have "elems h a \<noteq> elems h b"
    using length_elems [OF assms(1)] length_elems [OF assms(2)] by auto
  then show ?thesis using False by (simp add: op_eq_def GetSize_def)
qed

lemma op_less_elems:
  fixes h :: "('a::linorder) heap"
  assumes "owns h a" "owns h b"
  shows "op_less h a b = Inr (elems h a < elems h b)"
proof -
  have "std_lexicographical_compare h (m_arr a, 0) (m_arr a, m_size a) (m_arr b, 0) (m_arr b, m_size b)
        = Inr (drop 0 (take (m_size a) (block h (m_arr a)))
               < drop 0 (take (m_size b) (block h (m_arr b))))"
    using assms by (intro std_lexicographical_compare_blocks) (auto simp: owns_def)
  then show ?thesis
    by (simp add: op_less_def begin_it_def end_it_def ptr_add_def elems_def)
qed

text \<open>
  C9. For vectors whose blocks hold their elements, and an element type whose \<open><\<close> is a
  linear order: \<open>a == b\<close> is true exactly when the sizes are equal and the elements are
  pairwise equal in order; \<open>a < b\<close> is true exactly when the elements of \<open>a\<close> are
  lexicographically less than those of \<open>b\<close> (the order of \<open>HOL-Library.List_Lexorder\<close>);
  \<open>a != b\<close> is the negation of \<open>a == b\<close>, \<open>a <= b\<close> the negation of \<open>b < a\<close>,
  \<open>a > b\<close> is \<open>b < a\<close>, and \<open>a >= b\<close> the negation of \<open>a < b\<close>.
\<close>

theorem comparison_operators:
  fixes h :: "('a::linorder) heap"
  shows "owns h a \<and> owns h b \<longrightarrow>
     (\<exists>eq lt gt. op_eq h a b = Inr eq \<and> op_less h a b = Inr lt \<and> op_less h b a = Inr gt
        \<and> eq = (GetSize a = GetSize b \<and> (\<forall>i < GetSize a. elems h a ! i = elems h b ! i))
        \<and> lt = (elems h a < elems h b)
        \<and> gt = (elems h b < elems h a)
        \<and> op_neq h a b = Inr (\<not> eq)
        \<and> op_le h a b = Inr (\<not> gt)
        \<and> op_greater h a b = Inr gt
        \<and> op_ge h a b = Inr (\<not> lt))"
proof
  assume o: "owns h a \<and> owns h b"
  then have e: "op_eq h a b = Inr (elems h a = elems h b)"
    and l: "op_less h a b = Inr (elems h a < elems h b)"
    and g: "op_less h b a = Inr (elems h b < elems h a)"
    by (simp_all add: op_eq_elems op_less_elems)
  have eq: "(elems h a = elems h b)
            = (GetSize a = GetSize b \<and> (\<forall>i < GetSize a. elems h a ! i = elems h b ! i))"
    using o length_elems [of h a] length_elems [of h b]
    by (auto simp: list_eq_iff_nth_eq GetSize_def)
  show "\<exists>eq lt gt. op_eq h a b = Inr eq \<and> op_less h a b = Inr lt \<and> op_less h b a = Inr gt
        \<and> eq = (GetSize a = GetSize b \<and> (\<forall>i < GetSize a. elems h a ! i = elems h b ! i))
        \<and> lt = (elems h a < elems h b)
        \<and> gt = (elems h b < elems h a)
        \<and> op_neq h a b = Inr (\<not> eq)
        \<and> op_le h a b = Inr (\<not> gt)
        \<and> op_greater h a b = Inr gt
        \<and> op_ge h a b = Inr (\<not> lt)"
    using e l g eq
    by (intro exI [of _ "elems h a = elems h b"] exI [of _ "elems h a < elems h b"]
          exI [of _ "elems h b < elems h a"])
       (simp add: op_neq_def op_le_def op_greater_def op_ge_def)
qed

theorem comparison_operators_witness:
  "owns (alloc_block (alloc_block empty_heap [1, 2, 3 :: int]) [1, 2, 4])
      \<lparr>m_arr = 1, m_size = 3, m_capacity = 3\<rparr>
   \<and> owns (alloc_block (alloc_block empty_heap [1, 2, 3 :: int]) [1, 2, 4])
      \<lparr>m_arr = 2, m_size = 3, m_capacity = 3\<rparr>
   \<and> op_eq (alloc_block (alloc_block empty_heap [1, 2, 3 :: int]) [1, 2, 4])
       \<lparr>m_arr = 1, m_size = 3, m_capacity = 3\<rparr> \<lparr>m_arr = 2, m_size = 3, m_capacity = 3\<rparr> = Inr False
   \<and> op_neq (alloc_block (alloc_block empty_heap [1, 2, 3 :: int]) [1, 2, 4])
       \<lparr>m_arr = 1, m_size = 3, m_capacity = 3\<rparr> \<lparr>m_arr = 2, m_size = 3, m_capacity = 3\<rparr> = Inr True
   \<and> op_less (alloc_block (alloc_block empty_heap [1, 2, 3 :: int]) [1, 2, 4])
       \<lparr>m_arr = 1, m_size = 3, m_capacity = 3\<rparr> \<lparr>m_arr = 2, m_size = 3, m_capacity = 3\<rparr> = Inr True
   \<and> op_le (alloc_block (alloc_block empty_heap [1, 2, 3 :: int]) [1, 2, 4])
       \<lparr>m_arr = 1, m_size = 3, m_capacity = 3\<rparr> \<lparr>m_arr = 2, m_size = 3, m_capacity = 3\<rparr> = Inr True
   \<and> op_greater (alloc_block (alloc_block empty_heap [1, 2, 3 :: int]) [1, 2, 4])
       \<lparr>m_arr = 1, m_size = 3, m_capacity = 3\<rparr> \<lparr>m_arr = 2, m_size = 3, m_capacity = 3\<rparr> = Inr False
   \<and> op_ge (alloc_block (alloc_block empty_heap [1, 2, 3 :: int]) [1, 2, 4])
       \<lparr>m_arr = 1, m_size = 3, m_capacity = 3\<rparr> \<lparr>m_arr = 2, m_size = 3, m_capacity = 3\<rparr> = Inr False"
proof -
  let ?h = "alloc_block (alloc_block empty_heap [1, 2, 3 :: int]) [1, 2, 4]"
  let ?a = "\<lparr>m_arr = 1, m_size = 3, m_capacity = 3\<rparr>"
  let ?b = "\<lparr>m_arr = 2, m_size = 3, m_capacity = 3\<rparr>"
  have oa: "owns ?h ?a" by (simp add: owns_def block_def)
  have ob: "owns ?h ?b" by (simp add: owns_def block_def)
  have ea: "elems ?h ?a = [1, 2, 3]" by (simp add: elems_def block_def)
  have eb: "elems ?h ?b = [1, 2, 4]" by (simp add: elems_def block_def)
  have ne: "\<not> (\<forall>i<3. [1, 2, 3 :: int] ! i = [1, 2, 4] ! i)"
    by (auto intro: exI [of _ 2])
  have lt: "[1, 2, 3 :: int] < [1, 2, 4]" "\<not> [1, 2, 4 :: int] < [1, 2, 3]"
    by simp_all
  from comparison_operators [of ?h ?a ?b] oa ob
  obtain eq lt gt where r: "op_eq ?h ?a ?b = Inr eq" "op_less ?h ?a ?b = Inr lt"
      "eq = (GetSize ?a = GetSize ?b \<and> (\<forall>i < GetSize ?a. elems ?h ?a ! i = elems ?h ?b ! i))"
      "lt = (elems ?h ?a < elems ?h ?b)" "gt = (elems ?h ?b < elems ?h ?a)"
      "op_neq ?h ?a ?b = Inr (\<not> eq)" "op_le ?h ?a ?b = Inr (\<not> gt)"
      "op_greater ?h ?a ?b = Inr gt" "op_ge ?h ?a ?b = Inr (\<not> lt)"
    by blast
  have "eq = False" using r(3) ne ea eb by (simp add: GetSize_def)
  moreover have "lt = True" "gt = False" using r(4,5) lt ea eb by simp_all
  ultimately show ?thesis using r oa ob by simp
qed

section \<open>Self-assignment\<close>

text \<open>
  C10. Copy-assigning or move-assigning a vector to itself (\<open>this == &rhs\<close>) changes
  neither the heap nor any object: the size, the capacity and the elements of the vector
  are what they were.
\<close>

theorem self_assignment:
  "assign_copy d (h, vs) a a = Inr (h, vs) \<and> assign_move (h, vs) a a = (h, vs)
   \<and> (\<exists>h' vs'. assign_copy d (h, vs) a a = Inr (h', vs')
         \<and> GetSize (vs' a) = GetSize (vs a) \<and> GetCapacity (vs' a) = GetCapacity (vs a)
         \<and> elems h' (vs' a) = elems h (vs a))
   \<and> (\<exists>h' vs'. assign_move (h, vs) a a = (h', vs')
         \<and> GetSize (vs' a) = GetSize (vs a) \<and> GetCapacity (vs' a) = GetCapacity (vs a)
         \<and> elems h' (vs' a) = elems h (vs a))"
  by (simp add: assign_copy_def assign_move_def)

section \<open>Move construction and move assignment\<close>

lemma owns_below_brk: "heap_ok h \<Longrightarrow> owns h a \<Longrightarrow> m_arr a < brk h"
  by (cases rule: owns_cases) (auto simp: heap_ok_def)

lemma elems_alloc_block: "m_arr a < brk h \<Longrightarrow> elems (alloc_block h xs) a = elems h a"
  by (simp add: elems_def block_def)

text \<open>
  C1, as amended. After move-constructing \<open>b\<close> from \<open>a\<close>, and after move-assigning a
  non-empty \<open>a\<close> into a distinct \<open>b\<close>, \<open>b\<close> holds the block, the elements, the size and
  the capacity that \<open>a\<close> had, and \<open>a\<close> has size \<open>0\<close>; after the move assignment \<open>a\<close>
  holds the block and the capacity that \<open>b\<close> had. Move-assigning an empty \<open>a\<close> into a
  distinct \<open>b\<close> only clears \<open>b\<close>: its size becomes \<open>0\<close>, it keeps its own block and
  capacity, and \<open>a\<close> is unchanged.
\<close>

theorem move_transfers_storage:
  "(heap_ok h \<and> owns h a \<longrightarrow>
      (\<exists>h' b a'. SimpleVector_move d h a = (h', b, a')
         \<and> m_arr b = m_arr a \<and> elems h' b = elems h a
         \<and> GetSize b = GetSize a \<and> GetCapacity b = GetCapacity a
         \<and> GetSize a' = 0))
   \<and> (this \<noteq> rhs \<and> \<not> IsEmpty (vs rhs) \<longrightarrow>
        (\<exists>vs'. assign_move (h, vs) this rhs = (h, vs')
           \<and> m_arr (vs' this) = m_arr (vs rhs) \<and> elems h (vs' this) = elems h (vs rhs)
           \<and> GetSize (vs' this) = GetSize (vs rhs)
           \<and> GetCapacity (vs' this) = GetCapacity (vs rhs)
           \<and> GetSize (vs' rhs) = 0
           \<and> m_arr (vs' rhs) = m_arr (vs this)
           \<and> GetCapacity (vs' rhs) = GetCapacity (vs this)))
   \<and> (this \<noteq> rhs \<and> IsEmpty (vs rhs) \<longrightarrow>
        (\<exists>vs'. assign_move (h, vs) this rhs = (h, vs')
           \<and> GetSize (vs' this) = 0
           \<and> m_arr (vs' this) = m_arr (vs this)
           \<and> GetCapacity (vs' this) = GetCapacity (vs this)
           \<and> vs' rhs = vs rhs))"
proof (intro conjI impI)
  assume a: "heap_ok h \<and> owns h a"
  then have lt: "m_arr a < brk h" by (simp add: owns_below_brk)
  show "\<exists>h' b a'. SimpleVector_move d h a = (h', b, a')
         \<and> m_arr b = m_arr a \<and> elems h' b = elems h a
         \<and> GetSize b = GetSize a \<and> GetCapacity b = GetCapacity a
         \<and> GetSize a' = 0"
    using lt by (simp add: SimpleVector_move_eq GetSize_def elems_alloc_block)
next
  assume "this \<noteq> rhs \<and> \<not> IsEmpty (vs rhs)"
  then show "\<exists>vs'. assign_move (h, vs) this rhs = (h, vs')
           \<and> m_arr (vs' this) = m_arr (vs rhs) \<and> elems h (vs' this) = elems h (vs rhs)
           \<and> GetSize (vs' this) = GetSize (vs rhs)
           \<and> GetCapacity (vs' this) = GetCapacity (vs rhs)
           \<and> GetSize (vs' rhs) = 0
           \<and> m_arr (vs' rhs) = m_arr (vs this)
           \<and> GetCapacity (vs' rhs) = GetCapacity (vs this)"
    by (simp add: assign_move_distinct IsEmpty_def GetSize_def GetCapacity_def)
next
  assume "this \<noteq> rhs \<and> IsEmpty (vs rhs)"
  then show "\<exists>vs'. assign_move (h, vs) this rhs = (h, vs')
           \<and> GetSize (vs' this) = 0
           \<and> m_arr (vs' this) = m_arr (vs this)
           \<and> GetCapacity (vs' this) = GetCapacity (vs this)
           \<and> vs' rhs = vs rhs"
    by (simp add: assign_move_distinct IsEmpty_def GetSize_def GetCapacity_def)
qed

theorem move_transfers_storage_witness:
  "heap_ok (alloc_block (alloc_block empty_heap [1, 2, 3 :: int]) [4, 5])
   \<and> owns (alloc_block (alloc_block empty_heap [1, 2, 3 :: int]) [4, 5])
       \<lparr>m_arr = 1, m_size = 3, m_capacity = 3\<rparr>
   \<and> (\<exists>h' b a'. SimpleVector_move 0 (alloc_block (alloc_block empty_heap [1, 2, 3 :: int]) [4, 5])
                   \<lparr>m_arr = 1, m_size = 3, m_capacity = 3\<rparr> = (h', b, a')
         \<and> elems h' b = [1, 2, 3] \<and> GetSize b = 3 \<and> GetCapacity b = 3 \<and> GetSize a' = 0)
   \<and> (\<exists>vs'. assign_move (alloc_block (alloc_block empty_heap [1, 2, 3 :: int]) [4, 5],
                 no_objects(0 := \<lparr>m_arr = 1, m_size = 3, m_capacity = 3\<rparr>,
                            1 := \<lparr>m_arr = 2, m_size = 2, m_capacity = 2\<rparr>)) 1 0
               = (alloc_block (alloc_block empty_heap [1, 2, 3 :: int]) [4, 5], vs')
         \<and> elems (alloc_block (alloc_block empty_heap [1, 2, 3 :: int]) [4, 5]) (vs' 1) = [1, 2, 3]
         \<and> GetSize (vs' 1) = 3 \<and> GetCapacity (vs' 1) = 3
         \<and> GetSize (vs' 0) = 0 \<and> GetCapacity (vs' 0) = 2)
   \<and> (\<exists>vs'. assign_move (alloc_block (alloc_block empty_heap [1, 2, 3 :: int]) [4, 5],
                 no_objects(0 := \<lparr>m_arr = 1, m_size = 0, m_capacity = 3\<rparr>,
                            1 := \<lparr>m_arr = 2, m_size = 2, m_capacity = 2\<rparr>)) 1 0
               = (alloc_block (alloc_block empty_heap [1, 2, 3 :: int]) [4, 5], vs')
         \<and> GetSize (vs' 1) = 0 \<and> GetCapacity (vs' 1) = 2
         \<and> vs' 0 = \<lparr>m_arr = 1, m_size = 0, m_capacity = 3\<rparr>)"
proof -
  let ?h = "alloc_block (alloc_block empty_heap [1, 2, 3 :: int]) [4, 5]"
  let ?a = "\<lparr>m_arr = 1, m_size = 3, m_capacity = 3\<rparr>"
  let ?b = "\<lparr>m_arr = 2, m_size = 2, m_capacity = 2\<rparr>"
  let ?e = "\<lparr>m_arr = 1, m_size = 0, m_capacity = 3\<rparr>"
  have ok: "heap_ok ?h" by (intro heap_ok_alloc_block heap_ok_empty)
  have own: "owns ?h ?a" by (simp add: owns_def block_def)
  have el: "elems ?h ?a = [1, 2, 3]" by (simp add: elems_def block_def)
  have 1: "\<exists>h' b a'. SimpleVector_move 0 ?h ?a = (h', b, a')
         \<and> elems h' b = [1, 2, 3] \<and> GetSize b = 3 \<and> GetCapacity b = 3 \<and> GetSize a' = 0"
    using move_transfers_storage [of ?h ?a "0::int" 1 0 "no_objects(0 := ?a, 1 := ?b)"] ok own el
    by (auto simp: GetSize_def GetCapacity_def)
  have 2: "\<exists>vs'. assign_move (?h, no_objects(0 := ?a, 1 := ?b)) 1 0 = (?h, vs')
         \<and> elems ?h (vs' 1) = [1, 2, 3]
         \<and> GetSize (vs' 1) = 3 \<and> GetCapacity (vs' 1) = 3
         \<and> GetSize (vs' 0) = 0 \<and> GetCapacity (vs' 0) = 2"
    using move_transfers_storage [of ?h ?a "0::int" 1 0 "no_objects(0 := ?a, 1 := ?b)"] el
    by (auto simp: GetSize_def GetCapacity_def IsEmpty_def)
  have 3: "\<exists>vs'. assign_move (?h, no_objects(0 := ?e, 1 := ?b)) 1 0 = (?h, vs')
         \<and> GetSize (vs' 1) = 0 \<and> GetCapacity (vs' 1) = 2 \<and> vs' 0 = ?e"
    using move_transfers_storage [of ?h ?a "0::int" 1 0 "no_objects(0 := ?e, 1 := ?b)"]
    by (auto simp: GetSize_def GetCapacity_def IsEmpty_def)
  show ?thesis using ok own 1 2 3 by blast
qed

text \<open>
  The claim as stated fails: the vector moved from keeps a capacity that is not \<open>0\<close>.
  Move-constructing from the list-initialised \<open>[1, 2, 3]\<close> leaves the source with
  capacity \<open>3\<close>; move-assigning \<open>[1, 2, 3]\<close> into \<open>[4, 5]\<close> leaves the source with
  capacity \<open>2\<close>; move-assigning an empty vector of capacity \<open>3\<close> into \<open>[4, 5]\<close> leaves
  the target with capacity \<open>2\<close> and the source with capacity \<open>3\<close>.
\<close>

theorem move_source_capacity_counterexample:
  "SimpleVector_init (0::int) empty_heap [1, 2, 3]
     = Inr (alloc_block empty_heap [1, 2, 3], \<lparr>m_arr = 1, m_size = 3, m_capacity = 3\<rparr>)
   \<and> GetSize (snd (snd (SimpleVector_move (0::int) (alloc_block empty_heap [1, 2, 3])
                          \<lparr>m_arr = 1, m_size = 3, m_capacity = 3\<rparr>))) = 0
   \<and> GetCapacity (snd (snd (SimpleVector_move (0::int) (alloc_block empty_heap [1, 2, 3])
                          \<lparr>m_arr = 1, m_size = 3, m_capacity = 3\<rparr>))) = 3
   \<and> GetCapacity (snd (snd (SimpleVector_move (0::int) (alloc_block empty_heap [1, 2, 3])
                          \<lparr>m_arr = 1, m_size = 3, m_capacity = 3\<rparr>))) \<noteq> 0
   \<and> GetCapacity (snd (assign_move
         (alloc_block (alloc_block empty_heap [1, 2, 3 :: int]) [4, 5],
          no_objects(0 := \<lparr>m_arr = 1, m_size = 3, m_capacity = 3\<rparr>,
                     1 := \<lparr>m_arr = 2, m_size = 2, m_capacity = 2\<rparr>)) 1 0) 0) = 2
   \<and> GetCapacity (snd (assign_move
         (alloc_block (alloc_block empty_heap [1, 2, 3 :: int]) [4, 5],
          no_objects(0 := \<lparr>m_arr = 1, m_size = 0, m_capacity = 3\<rparr>,
                     1 := \<lparr>m_arr = 2, m_size = 2, m_capacity = 2\<rparr>)) 1 0) 1) = 2
   \<and> GetCapacity (snd (assign_move
         (alloc_block (alloc_block empty_heap [1, 2, 3 :: int]) [4, 5],
          no_objects(0 := \<lparr>m_arr = 1, m_size = 0, m_capacity = 3\<rparr>,
                     1 := \<lparr>m_arr = 2, m_size = 2, m_capacity = 2\<rparr>)) 1 0) 0) = 3"
  by (simp add: SimpleVector_init_pos SimpleVector_move_eq assign_move_distinct
      GetSize_def GetCapacity_def)

section \<open>The storage invariant\<close>

text \<open>
  C2. The invariant does not hold for every reachable vector. Take the list-initialised
  \<open>[1, 2, 3]\<close> after \<open>PopBack()\<close>: size \<open>2\<close>, capacity \<open>3\<close>, a block of \<open>3\<close> elements.
  Its copy reports capacity \<open>3\<close> but owns a block of \<open>2\<close> elements, and a \<open>PushBack\<close>
  on the copy writes past the end of that block. Moving from the same vector leaves the
  source with capacity \<open>3\<close> and a block of \<open>2\<close> elements.
\<close>

theorem copy_breaks_storage_invariant:
  "SimpleVector_init (0::int) empty_heap [1, 2, 3]
     = Inr (alloc_block empty_heap [1, 2, 3], \<lparr>m_arr = 1, m_size = 3, m_capacity = 3\<rparr>)
   \<and> PopBack \<lparr>m_arr = 1, m_size = 3, m_capacity = 3\<rparr> = \<lparr>m_arr = 1, m_size = 2, m_capacity = 3\<rparr>
   \<and> vector_inv (alloc_block empty_heap [1, 2, 3 :: int]) \<lparr>m_arr = 1, m_size = 2, m_capacity = 3\<rparr>
   \<and> SimpleVector_copy (0::int) (alloc_block empty_heap [1, 2, 3])
        \<lparr>m_arr = 1, m_size = 2, m_capacity = 3\<rparr>
      = Inr (alloc_block (alloc_block empty_heap [1, 2, 3]) [1, 2],
             \<lparr>m_arr = 2, m_size = 2, m_capacity = 3\<rparr>)
   \<and> \<not> storage_inv (alloc_block (alloc_block empty_heap [1, 2, 3 :: int]) [1, 2])
          \<lparr>m_arr = 2, m_size = 2, m_capacity = 3\<rparr>
   \<and> PushBack (0::int) (alloc_block (alloc_block empty_heap [1, 2, 3]) [1, 2])
        \<lparr>m_arr = 2, m_size = 2, m_capacity = 3\<rparr> (Outside 4) = Inl invalid_access
   \<and> SimpleVector_move (0::int) (alloc_block empty_heap [1, 2, 3])
        \<lparr>m_arr = 1, m_size = 2, m_capacity = 3\<rparr>
      = (alloc_block (alloc_block empty_heap [1, 2, 3]) [0, 0],
         \<lparr>m_arr = 1, m_size = 2, m_capacity = 3\<rparr>, \<lparr>m_arr = 2, m_size = 0, m_capacity = 3\<rparr>)
   \<and> \<not> storage_inv (alloc_block (alloc_block empty_heap [1, 2, 3 :: int]) [0, 0])
          \<lparr>m_arr = 2, m_size = 0, m_capacity = 3\<rparr>"
proof -
  let ?h = "alloc_block empty_heap [1, 2, 3 :: int]"
  let ?a = "\<lparr>m_arr = 1, m_size = 2, m_capacity = 3\<rparr>"
  have ok: "heap_ok ?h" by (rule heap_ok_example)
  have inv: "vector_inv ?h ?a" by (rule vector_inv_example) simp_all
  have el: "elems ?h ?a = [1, 2]"
    using elems_example [of 2 "[1, 2 :: int]" "[3]" 3] by simp
  have cp: "SimpleVector_copy (0::int) ?h ?a
      = Inr (alloc_block ?h [1, 2], \<lparr>m_arr = 2, m_size = 2, m_capacity = 3\<rparr>)"
    using SimpleVector_copy_eq [OF ok vector_inv_owns [OF inv], of 0] el by simp
  have r2: "replicate 2 (0::int) = [0, 0]" by (simp add: numeral_2_eq_2)
  have mv: "SimpleVector_move (0::int) ?h ?a
      = (alloc_block ?h [0, 0], ?a, \<lparr>m_arr = 2, m_size = 0, m_capacity = 3\<rparr>)"
    by (simp add: SimpleVector_move_eq r2)
  have pb: "PushBack (0::int) (alloc_block ?h [1, 2]) \<lparr>m_arr = 2, m_size = 2, m_capacity = 3\<rparr>
              (Outside 4) = Inl invalid_access"
    by (simp add: PushBack_def grow_if_full_def read_ref_def store_def block_def)
  have n1: "\<not> storage_inv (alloc_block ?h [1, 2]) \<lparr>m_arr = 2, m_size = 2, m_capacity = 3\<rparr>"
    by (simp add: storage_inv_def)
  have n2: "\<not> storage_inv (alloc_block ?h [0, 0 :: int]) \<lparr>m_arr = 2, m_size = 0, m_capacity = 3\<rparr>"
    by (simp add: storage_inv_def)
  have pop: "PopBack \<lparr>m_arr = 1, m_size = 3, m_capacity = 3\<rparr> = ?a"
    by (simp add: PopBack_def IsEmpty_def)
  have init: "SimpleVector_init (0::int) empty_heap [1, 2, 3]
     = Inr (?h, \<lparr>m_arr = 1, m_size = 3, m_capacity = 3\<rparr>)"
    by (simp add: SimpleVector_init_pos)
  show ?thesis using init pop inv cp n1 pb mv n2 by blast
qed

section \<open>Which blocks an operation can change\<close>

lemma writes_to_refl [simp]: "writes_to p h h"
  by (simp add: writes_to_def)

lemma writes_to_trans: "writes_to p h1 h2 \<Longrightarrow> writes_to p h2 h3 \<Longrightarrow> writes_to p h1 h3"
  by (auto simp: writes_to_def)

lemma store_writes_to: "store h ptr x = Inr h' \<Longrightarrow> writes_to (fst ptr) h h'"
  by (auto simp: store_def writes_to_def block_def split: if_splits option.splits)

lemma writes_to_heap_ok: "writes_to p h h' \<Longrightarrow> heap_ok h \<Longrightarrow> heap_ok h'"
  unfolding writes_to_def heap_ok_def by metis

lemma writes_to_brk: "writes_to p h h' \<Longrightarrow> brk h' = brk h"
  by (auto simp: writes_to_def)

lemma frame_writes_to:
  "frame p h h1 \<Longrightarrow> writes_to a h1 h2 \<Longrightarrow> a = p \<or> brk h \<le> a \<Longrightarrow> frame p h h2"
  by (auto simp: frame_def writes_to_def)

lemma std_copy_writes_to:
  "std_copy h first lst d_first = Inr h' \<Longrightarrow> writes_to (fst d_first) h h'"
proof (induction h first lst d_first rule: std_copy.induct)
  case (1 h first lst d_first)
  show ?case
  proof (cases "fst first \<noteq> fst lst \<or> snd lst < snd first \<or> first = lst")
    case True
    then show ?thesis using "1.prems" by (subst (asm) std_copy.simps) (auto split: if_splits)
  next
    case False
    then obtain x h1 where s: "load h first = Inr x" "store h d_first x = Inr h1"
      "std_copy h1 (ptr_add first 1) lst (ptr_add d_first 1) = Inr h'"
      using "1.prems" by (subst (asm) std_copy.simps) (auto split: if_splits sum.splits)
    have "writes_to (fst (ptr_add d_first 1)) h1 h'"
      using False s by (intro "1.IH") auto
    then show ?thesis
      using store_writes_to [OF s(2)] by (auto simp: ptr_add_def intro: writes_to_trans)
  qed
qed

lemma std_copy_backward_writes_to:
  "std_copy_backward h first lst d_last = Inr h' \<Longrightarrow> writes_to (fst d_last) h h'"
proof (induction h first lst d_last rule: std_copy_backward.induct)
  case (1 h first lst d_last)
  show ?case
  proof (cases "fst first \<noteq> fst lst \<or> snd lst < snd first \<or> first = lst")
    case True
    then show ?thesis using "1.prems"
      by (subst (asm) std_copy_backward.simps) (auto split: if_splits)
  next
    case False
    then obtain x h1 where s: "snd d_last \<noteq> 0" "load h (ptr_dec lst) = Inr x"
      "store h (ptr_dec d_last) x = Inr h1"
      "std_copy_backward h1 first (ptr_dec lst) (ptr_dec d_last) = Inr h'"
      using "1.prems"
      by (subst (asm) std_copy_backward.simps) (auto split: if_splits sum.splits)
    have "writes_to (fst (ptr_dec d_last)) h1 h'"
      using False s by (intro "1.IH") auto
    then show ?thesis
      using store_writes_to [OF s(3)] by (auto simp: ptr_dec_def intro: writes_to_trans)
  qed
qed

lemma std_fill_writes_to:
  "std_fill h first lst v = Inr h' \<Longrightarrow> writes_to (fst first) h h'"
proof (induction h first lst v rule: std_fill.induct)
  case (1 h first lst v)
  show ?case
  proof (cases "fst first \<noteq> fst lst \<or> snd lst < snd first \<or> first = lst")
    case True
    then show ?thesis using "1.prems" by (subst (asm) std_fill.simps) (auto split: if_splits)
  next
    case False
    then obtain h1 where s: "store h first v = Inr h1"
      "std_fill h1 (ptr_add first 1) lst v = Inr h'"
      using "1.prems" by (subst (asm) std_fill.simps) (auto split: if_splits sum.splits)
    have "writes_to (fst (ptr_add first 1)) h1 h'"
      using False s by (intro "1.IH") auto
    then show ?thesis
      using store_writes_to [OF s(1)] by (auto simp: ptr_add_def intro: writes_to_trans)
  qed
qed

lemma ArrayPtr_delete_Inr: "ArrayPtr_delete h p = Inr h' \<Longrightarrow> h' = free_block h p"
  by (auto simp: ArrayPtr_delete_def free_block_def split: if_splits option.splits)

lemma writes_to_frame: "writes_to p h h' \<Longrightarrow> frame p h h'"
  by (auto simp: frame_def writes_to_def)

lemma frame_after_grow:
  assumes f: "heap_ok h1 \<and> frame p h h1 \<and> (a = p \<or> a = brk h)"
    and w: "writes_to a h1 h'"
  shows "heap_ok h' \<and> frame p h h'"
proof -
  have d: "a = p \<or> brk h \<le> a" using f by linarith
  have "frame p h h'" using f w d frame_writes_to [of p h h1 a h'] by blast
  moreover have "heap_ok h'" using w f by (blast intro: writes_to_heap_ok)
  ultimately show ?thesis by simp
qed

lemma ChangeCapacity_frame:
  assumes "heap_ok h" "0 < n" "ChangeCapacity d h v n = Inr (h', v')"
  shows "heap_ok h' \<and> frame (m_arr v) h h' \<and> m_arr v' = brk h"
proof -
  let ?h1 = "alloc_block h (replicate n d)"
  have eq: "ChangeCapacity d h v n =
     (case std_copy ?h1 (begin_it v) (end_it v) (brk h, 0) of
        Inl e \<Rightarrow> Inl e
      | Inr h2 \<Rightarrow>
          (case ArrayPtr_delete h2 (m_arr v) of
             Inl e \<Rightarrow> Inl e
           | Inr h3 \<Rightarrow> Inr (h3, \<lparr>m_arr = brk h, m_size = m_size v, m_capacity = n\<rparr>)))"
    using assms(2)
    by (simp add: ChangeCapacity_def SimpleVector_size_pos std_move_def begin_it_def
        swap_rvalue_eq destroy_def cong: sum.case_cong)
  obtain h2 where mv: "std_copy ?h1 (begin_it v) (end_it v) (brk h, 0) = Inr h2"
    using assms(3) unfolding eq
    by (cases "std_copy ?h1 (begin_it v) (end_it v) (brk h, 0)") simp_all
  have "ArrayPtr_delete h2 (m_arr v) = Inr h'
        \<and> v' = \<lparr>m_arr = brk h, m_size = m_size v, m_capacity = n\<rparr>"
    using assms(3) unfolding eq mv
    by (cases "ArrayPtr_delete h2 (m_arr v)") auto
  then have del: "ArrayPtr_delete h2 (m_arr v) = Inr h'"
    and v': "v' = \<lparr>m_arr = brk h, m_size = m_size v, m_capacity = n\<rparr>"
    by simp_all
  have w: "writes_to (brk h) ?h1 h2" using std_copy_writes_to [OF mv] by simp
  have h': "h' = free_block h2 (m_arr v)" using del by (rule ArrayPtr_delete_Inr)
  have ok2: "heap_ok h2" using w heap_ok_alloc_block [OF assms(1)] by (rule writes_to_heap_ok)
  have ok: "heap_ok h'" unfolding h' using ok2 by (rule heap_ok_free_block)
  have b2: "brk h2 = Suc (brk h)" using writes_to_brk [OF w] by simp
  have "\<forall>q. q < brk h \<and> q \<noteq> m_arr v \<longrightarrow> blocks h' q = blocks h q"
    using w by (auto simp: h' blocks_free_block writes_to_def)
  then have "frame (m_arr v) h h'" using b2 by (simp add: frame_def h')
  then show ?thesis using ok v' by simp
qed

lemma grow_if_full_frame:
  assumes "heap_ok h" "grow_if_full d h v = Inr (h', v')"
  shows "heap_ok h' \<and> frame (m_arr v) h h' \<and> (m_arr v' = m_arr v \<or> m_arr v' = brk h)"
proof (cases "m_size v = m_capacity v")
  case True
  let ?n = "if m_size v \<noteq> 0 then 2 * m_size v else 1"
  have "ChangeCapacity d h v ?n = Inr (h', v')"
    using assms(2) True by (simp add: grow_if_full_def split: if_splits)
  moreover have "0 < ?n" by simp
  ultimately have "heap_ok h' \<and> frame (m_arr v) h h' \<and> m_arr v' = brk h"
    by (intro ChangeCapacity_frame [OF assms(1)])
  then show ?thesis by simp
next
  case False
  then show ?thesis using assms by (simp add: grow_if_full_def)
qed

lemma PushBack_frame:
  assumes "heap_ok h" "PushBack d h v x = Inr (h', v')"
  shows "heap_ok h' \<and> frame (m_arr v) h h' \<and> (m_arr v' = m_arr v \<or> brk h \<le> m_arr v')"
proof -
  obtain h1 v1 where g: "grow_if_full d h v = Inr (h1, v1)"
    using assms(2) by (cases "grow_if_full d h v") (auto simp: PushBack_def)
  obtain y where rd: "read_ref h1 x = Inr y"
    using assms(2) g by (cases "read_ref h1 x") (auto simp: PushBack_def)
  have "store h1 (m_arr v1, m_size v1) y = Inr h' \<and> m_arr v' = m_arr v1"
    using assms(2) g rd
    by (cases "store h1 (m_arr v1, m_size v1) y") (auto simp: PushBack_def)
  then have st: "store h1 (m_arr v1, m_size v1) y = Inr h'" and v': "m_arr v' = m_arr v1"
    by simp_all
  note f = grow_if_full_frame [OF assms(1) g]
  have w: "writes_to (m_arr v1) h1 h'" using store_writes_to [OF st] by simp
  have "heap_ok h' \<and> frame (m_arr v) h h'" using f w by (rule frame_after_grow)
  moreover have "m_arr v' = m_arr v \<or> brk h \<le> m_arr v'" using f v' by linarith
  ultimately show ?thesis by simp
qed

lemma Insert_frame:
  assumes "heap_ok h" "Insert d h v pos x = Inr (h', v', it)"
  shows "heap_ok h' \<and> frame (m_arr v) h h' \<and> (m_arr v' = m_arr v \<or> brk h \<le> m_arr v')"
proof -
  let ?i = "std_distance (begin_it v) pos"
  have a: "ptr_le (begin_it v) pos \<and> ptr_le pos (end_it v)"
    using assms(2) by (cases "ptr_le (begin_it v) pos \<and> ptr_le pos (end_it v)")
      (simp_all add: Insert_def)
  obtain h1 v1 where g: "grow_if_full d h v = Inr (h1, v1)"
    using assms(2) a by (cases "grow_if_full d h v") (auto simp: Insert_def Let_def)
  let ?cb = "std_copy_backward h1 (ptr_add (begin_it v1) ?i) (end_it v1) (ptr_add (end_it v1) 1)"
  obtain h2 where cb: "?cb = Inr h2"
    using assms(2) a g by (cases ?cb) (auto simp: Insert_def Let_def)
  obtain y where rd: "read_ref h2 x = Inr y"
    using assms(2) a g cb by (cases "read_ref h2 x") (auto simp: Insert_def Let_def)
  have "store h2 (m_arr v1, ?i) y = Inr h' \<and> m_arr v' = m_arr v1"
    using assms(2) a g cb rd
    by (cases "store h2 (m_arr v1, ?i) y") (auto simp: Insert_def Let_def)
  then have st: "store h2 (m_arr v1, ?i) y = Inr h'" and v': "m_arr v' = m_arr v1"
    by simp_all
  note f = grow_if_full_frame [OF assms(1) g]
  have w1: "writes_to (m_arr v1) h1 h2"
    using std_copy_backward_writes_to [OF cb] by (simp add: ptr_add_def end_it_def)
  have w2: "writes_to (m_arr v1) h2 h'" using store_writes_to [OF st] by simp
  have w: "writes_to (m_arr v1) h1 h'" using w1 w2 by (rule writes_to_trans)
  have "heap_ok h' \<and> frame (m_arr v) h h'" using f w by (rule frame_after_grow)
  moreover have "m_arr v' = m_arr v \<or> brk h \<le> m_arr v'" using f v' by linarith
  ultimately show ?thesis by simp
qed

lemma Erase_frame:
  assumes "heap_ok h" "Erase h v pos = Inr (h', v', it)"
  shows "heap_ok h' \<and> frame (m_arr v) h h' \<and> m_arr v' = m_arr v"
proof -
  let ?i = "std_distance (begin_it v) pos"
  let ?mv = "std_copy h (ptr_add (ptr_add (begin_it v) ?i) 1) (end_it v) (ptr_add (begin_it v) ?i)"
  have a: "ptr_le (begin_it v) pos \<and> ptr_less pos (end_it v)"
    using assms(2) by (cases "ptr_le (begin_it v) pos \<and> ptr_less pos (end_it v)")
      (simp_all add: Erase_def)
  have "?mv = Inr h' \<and> m_arr v' = m_arr v"
    using assms(2) a by (cases ?mv) (auto simp: Erase_def Let_def std_move_def)
  then have mv: "?mv = Inr h'" and v': "m_arr v' = m_arr v" by simp_all
  have w: "writes_to (m_arr v) h h'"
    using std_copy_writes_to [OF mv] by (simp add: ptr_add_def begin_it_def)
  show ?thesis using writes_to_frame [OF w] writes_to_heap_ok [OF w assms(1)] v' by simp
qed

lemma Resize_frame:
  assumes "heap_ok h" "Resize d h v n = Inr (h', v')"
  shows "heap_ok h' \<and> frame (m_arr v) h h' \<and> (m_arr v' = m_arr v \<or> brk h \<le> m_arr v')"
proof (cases "n \<le> m_size v")
  case True
  then show ?thesis using assms by (auto simp: Resize_def)
next
  case False
  note big = this
  show ?thesis
  proof (cases "n \<le> m_capacity v")
    case True
    let ?fl = "std_fill h (ptr_add (begin_it v) (m_size v)) (ptr_add (begin_it v) n) d"
    have "?fl = Inr h' \<and> m_arr v' = m_arr v"
      using assms(2) big True by (cases ?fl) (auto simp: Resize_def)
    then have fl: "?fl = Inr h'" and r: "m_arr v' = m_arr v" by simp_all
    have w: "writes_to (m_arr v) h h'"
      using std_fill_writes_to [OF fl] by (simp add: ptr_add_def begin_it_def)
    show ?thesis using writes_to_frame [OF w] writes_to_heap_ok [OF w assms(1)] r by simp
  next
    case False
    then obtain v1 where c: "ChangeCapacity d h v n = Inr (h', v1)" and r: "m_arr v' = m_arr v1"
      using assms(2) big by (cases "ChangeCapacity d h v n") (auto simp: Resize_def)
    have "0 < n" using big by simp
    then have "heap_ok h' \<and> frame (m_arr v) h h' \<and> m_arr v1 = brk h"
      using c by (intro ChangeCapacity_frame [OF assms(1)])
    then show ?thesis using r by simp
  qed
qed

lemma Reserve_capacity_frame:
  assumes "heap_ok h" "Reserve_capacity d h v n = Inr (h', v')"
  shows "heap_ok h' \<and> frame (m_arr v) h h' \<and> (m_arr v' = m_arr v \<or> brk h \<le> m_arr v')"
proof (cases "m_capacity v < n")
  case True
  then have c: "ChangeCapacity d h v n = Inr (h', v')" and n: "0 < n"
    using assms(2) by (simp_all add: Reserve_capacity_def)
  have "heap_ok h' \<and> frame (m_arr v) h h' \<and> m_arr v' = brk h"
    using n c by (intro ChangeCapacity_frame [OF assms(1)])
  then show ?thesis by simp
next
  case False
  then show ?thesis using assms by (simp add: Reserve_capacity_def)
qed

lemma mutate_frame:
  assumes "heap_ok h" "mutate d h v m = Inr (h', v')"
  shows "heap_ok h' \<and> frame (m_arr v) h h' \<and> (m_arr v' = m_arr v \<or> brk h \<le> m_arr v')"
proof (cases m)
  case (Call_PushBack x)
  then show ?thesis using assms PushBack_frame [of h d v x h' v'] by simp
next
  case Call_PopBack
  then show ?thesis using assms by (auto simp: PopBack_def)
next
  case (Call_Insert i x)
  then obtain it where "Insert d h v (ptr_add (begin_it v) i) x = Inr (h', v', it)"
    using assms(2) by (cases "Insert d h v (ptr_add (begin_it v) i) x") auto
  then show ?thesis using Insert_frame [OF assms(1)] by blast
next
  case (Call_Erase i)
  then obtain it where "Erase h v (ptr_add (begin_it v) i) = Inr (h', v', it)"
    using assms(2) by (cases "Erase h v (ptr_add (begin_it v) i)") auto
  then show ?thesis using Erase_frame [OF assms(1)] by blast
next
  case (Call_Resize n)
  then show ?thesis using assms Resize_frame [of h d v n h' v'] by simp
next
  case (Call_Reserve n)
  then show ?thesis using assms Reserve_capacity_frame [of h d v n h' v'] by simp
next
  case Call_Clear
  then show ?thesis using assms by (auto simp: Clear_def)
next
  case (Call_assign_subscript i x)
  then obtain ref where s0: "subscript v i = Inr ref"
    using assms(2) by (cases "subscript v i") auto
  have "store h ref x = Inr h' \<and> v' = v"
    using assms(2) Call_assign_subscript s0 by (cases "store h ref x") auto
  then have s: "store h ref x = Inr h'" "v' = v" by simp_all
  have "fst ref = m_arr v"
    using s0 by (cases "i < m_size v") (auto simp: subscript_def ptr_add_def begin_it_def)
  then have w: "writes_to (m_arr v) h h'" using store_writes_to [OF s(1)] by simp
  show ?thesis using writes_to_frame [OF w] writes_to_heap_ok [OF w assms(1)] s(2) by simp
next
  case (Call_assign_At i x)
  show ?thesis
  proof (cases "m_size v \<le> i")
    case True
    then show ?thesis using assms(2) Call_assign_At by (simp add: At_def)
  next
    case False
    then have at: "At v i = (Inr (m_arr v, i), v)"
      by (simp add: At_def ptr_add_def begin_it_def)
    have "store h (m_arr v, i) x = Inr h' \<and> v' = v"
      using assms(2) Call_assign_At at by (cases "store h (m_arr v, i) x") auto
    then have s: "store h (m_arr v, i) x = Inr h'" "v' = v" by simp_all
    have w: "writes_to (m_arr v) h h'" using store_writes_to [OF s(1)] by simp
    show ?thesis using writes_to_frame [OF w] writes_to_heap_ok [OF w assms(1)] s(2) by simp
  qed
qed

lemma mutate_all_frame:
  assumes "heap_ok h" "q < brk h" "q \<noteq> m_arr v \<or> q = 0" "mutate_all d h v ms = Inr (h', v')"
  shows "blocks h' q = blocks h q \<and> heap_ok h'"
  using assms
proof (induction ms arbitrary: h v)
  case Nil
  then show ?case by simp
next
  case (Cons m ms)
  then obtain h1 v1 where s: "mutate d h v m = Inr (h1, v1)" "mutate_all d h1 v1 ms = Inr (h', v')"
    by (cases "mutate d h v m") auto
  note f = mutate_frame [OF Cons.prems(1) s(1)]
  have b: "blocks h1 q = blocks h q"
  proof (cases "q = 0")
    case True
    then show ?thesis using f Cons.prems(1) by (simp add: heap_ok_def)
  next
    case False
    then show ?thesis using f Cons.prems(2,3) by (auto simp: frame_def)
  qed
  have lt: "q < brk h1" using f Cons.prems(2) by (auto simp: frame_def)
  have ne: "q \<noteq> m_arr v1 \<or> q = 0" using f Cons.prems(2,3) by auto
  have "blocks h' q = blocks h1 q \<and> heap_ok h'"
    using f lt ne s(2) by (intro Cons.IH) auto
  then show ?case using b by simp
qed

section \<open>Copy construction\<close>

lemma elems_blocks_cong: "blocks h' (m_arr a) = blocks h (m_arr a) \<Longrightarrow> elems h' a = elems h a"
  by (simp add: elems_def block_def)

text \<open>
  C4. Copy construction from a vector whose block holds its elements succeeds; the copy
  has the size of the source, reports the capacity of the source, and has the same elements
  in order. Its block is newly allocated (or it has none, when the source is empty), so it
  is not the block of the source, which the construction leaves as it was. Whatever
  sequence of mutating calls is then made on the copy (\<open>PushBack\<close> and \<open>Insert\<close> with
  any argument, \<open>PopBack\<close>, \<open>Erase\<close>, \<open>Resize\<close>, \<open>Reserve\<close>, \<open>Clear\<close>,
  assignment through \<open>operator[]\<close> or \<open>At\<close>) and returns, the block and the elements of the source are unchanged; the
  size and capacity of the source are members of the source, which no call on the copy
  receives.
\<close>

theorem copy_is_deep:
  "heap_ok h \<and> owns h a \<longrightarrow>
     (\<exists>h' c. SimpleVector_copy d h a = Inr (h', c)
        \<and> GetSize c = GetSize a \<and> GetCapacity c = GetCapacity a
        \<and> elems h' c = elems h a
        \<and> (\<forall>i < GetSize a. elems h' c ! i = elems h a ! i)
        \<and> blocks h' (m_arr a) = blocks h (m_arr a)
        \<and> (m_arr c = 0 \<or> (m_arr c \<noteq> m_arr a \<and> blocks h (m_arr c) = None))
        \<and> heap_ok h' \<and> owns h' c
        \<and> (\<forall>ms h'' c'. mutate_all d h' c ms = Inr (h'', c') \<longrightarrow>
              blocks h'' (m_arr a) = blocks h (m_arr a) \<and> elems h'' a = elems h a))"
proof
  assume pre: "heap_ok h \<and> owns h a"
  then have ok: "heap_ok h" and own: "owns h a" by simp_all
  have lt: "m_arr a < brk h" using ok own by (rule owns_below_brk)
  have len: "length (elems h a) = m_size a" using own by (rule length_elems)
  let ?P = "\<lambda>h' c. SimpleVector_copy d h a = Inr (h', c)
        \<and> GetSize c = GetSize a \<and> GetCapacity c = GetCapacity a
        \<and> elems h' c = elems h a
        \<and> (\<forall>i < GetSize a. elems h' c ! i = elems h a ! i)
        \<and> blocks h' (m_arr a) = blocks h (m_arr a)
        \<and> (m_arr c = 0 \<or> (m_arr c \<noteq> m_arr a \<and> blocks h (m_arr c) = None))
        \<and> heap_ok h' \<and> owns h' c
        \<and> (\<forall>ms h'' c'. mutate_all d h' c ms = Inr (h'', c') \<longrightarrow>
              blocks h'' (m_arr a) = blocks h (m_arr a) \<and> elems h'' a = elems h a)"
  show "\<exists>h' c. ?P h' c"
  proof (cases "m_size a = 0")
    case True
    let ?c = "\<lparr>m_arr = 0, m_size = 0, m_capacity = m_capacity a\<rparr>"
    have cp: "SimpleVector_copy d h a = Inr (h, ?c)"
      using SimpleVector_copy_eq [OF ok own, of d] True by simp
    have el: "elems h ?c = elems h a" using True by (simp add: elems_def)
    have oc: "owns h ?c" by (simp add: owns_def)
    have iso: "blocks h'' (m_arr a) = blocks h (m_arr a) \<and> elems h'' a = elems h a"
      if m: "mutate_all d h ?c ms = Inr (h'', c')" for ms h'' c'
    proof -
      have "m_arr a \<noteq> m_arr ?c \<or> m_arr a = 0" by auto
      then have "blocks h'' (m_arr a) = blocks h (m_arr a) \<and> heap_ok h''"
        using ok lt m by (intro mutate_all_frame [of h "m_arr a" ?c d ms h'' c'])
      then have b: "blocks h'' (m_arr a) = blocks h (m_arr a)" by (rule conjunct1)
      show ?thesis using b elems_blocks_cong [OF b] by (intro conjI)
    qed
    have iso': "\<forall>ms h'' c'. mutate_all d h ?c ms = Inr (h'', c') \<longrightarrow>
              blocks h'' (m_arr a) = blocks h (m_arr a) \<and> elems h'' a = elems h a"
      using iso by blast
    have sz: "GetSize ?c = GetSize a" "GetCapacity ?c = GetCapacity a"
      using True by (simp_all add: GetSize_def GetCapacity_def)
    have nth: "\<forall>i < GetSize a. elems h ?c ! i = elems h a ! i" using el by simp
    have sh: "m_arr ?c = 0 \<or> (m_arr ?c \<noteq> m_arr a \<and> blocks h (m_arr ?c) = None)" by simp
    have "?P h ?c"
      using cp sz el nth sh ok oc iso' by (intro conjI) (assumption | rule refl)+
    then show ?thesis by (intro exI)
  next
    case False
    let ?h' = "alloc_block h (elems h a)"
    let ?c = "\<lparr>m_arr = brk h, m_size = m_size a, m_capacity = m_capacity a\<rparr>"
    have cp: "SimpleVector_copy d h a = Inr (?h', ?c)"
      using SimpleVector_copy_eq [OF ok own, of d] False by simp
    have el: "elems ?h' ?c = elems h a" using len by (simp add: elems_def block_def)
    have bl: "blocks ?h' (m_arr a) = blocks h (m_arr a)" using lt by simp
    have fresh: "m_arr ?c \<noteq> m_arr a \<and> blocks h (m_arr ?c) = None"
      using lt ok by (simp add: heap_ok_def)
    have ok': "heap_ok ?h'" using ok by (rule heap_ok_alloc_block)
    have oc: "owns ?h' ?c" using len by (simp add: owns_def block_def)
    have iso: "blocks h'' (m_arr a) = blocks h (m_arr a) \<and> elems h'' a = elems h a"
      if m: "mutate_all d ?h' ?c ms = Inr (h'', c')" for ms h'' c'
    proof -
      have ne: "m_arr a \<noteq> m_arr ?c \<or> m_arr a = 0" using lt by simp
      have lt': "m_arr a < brk ?h'" using lt by simp
      have "blocks h'' (m_arr a) = blocks ?h' (m_arr a) \<and> heap_ok h''"
        using ok' lt' ne m by (rule mutate_all_frame)
      then have b: "blocks h'' (m_arr a) = blocks h (m_arr a)" using bl by simp
      show ?thesis using b elems_blocks_cong [OF b] by (intro conjI)
    qed
    have iso': "\<forall>ms h'' c'. mutate_all d ?h' ?c ms = Inr (h'', c') \<longrightarrow>
              blocks h'' (m_arr a) = blocks h (m_arr a) \<and> elems h'' a = elems h a"
      using iso by blast
    have sz: "GetSize ?c = GetSize a" "GetCapacity ?c = GetCapacity a"
      by (simp_all add: GetSize_def GetCapacity_def)
    have nth: "\<forall>i < GetSize a. elems ?h' ?c ! i = elems h a ! i" using el by simp
    have sh: "m_arr ?c = 0 \<or> (m_arr ?c \<noteq> m_arr a \<and> blocks h (m_arr ?c) = None)"
      using fresh by simp
    have "?P ?h' ?c"
      using cp sz el nth bl sh ok' oc iso' by (intro conjI) (assumption | rule refl)+
    then show ?thesis by (intro exI)
  qed
qed

theorem copy_is_deep_witness:
  "heap_ok (alloc_block empty_heap [1, 2, 3 :: int])
   \<and> owns (alloc_block empty_heap [1, 2, 3 :: int]) \<lparr>m_arr = 1, m_size = 3, m_capacity = 3\<rparr>
   \<and> (\<exists>h' c h'' c'.
        SimpleVector_copy 0 (alloc_block empty_heap [1, 2, 3 :: int])
          \<lparr>m_arr = 1, m_size = 3, m_capacity = 3\<rparr> = Inr (h', c)
        \<and> GetSize c = 3 \<and> GetCapacity c = 3 \<and> elems h' c = [1, 2, 3]
        \<and> mutate_all 0 h' c [Call_assign_subscript 0 9, Call_PushBack (Outside 4)] = Inr (h'', c')
        \<and> elems h'' c' = [9, 2, 3, 4]
        \<and> elems h'' \<lparr>m_arr = 1, m_size = 3, m_capacity = 3\<rparr> = [1, 2, 3])"
proof -
  let ?h = "alloc_block empty_heap [1, 2, 3 :: int]"
  let ?a = "\<lparr>m_arr = 1, m_size = 3, m_capacity = 3\<rparr>"
  let ?ms = "[Call_assign_subscript 0 9, Call_PushBack (Outside (4::int))]"
  have ok: "heap_ok ?h" by (rule heap_ok_example)
  have inv: "vector_inv ?h ?a" by (rule vector_inv_example) simp_all
  then have own: "owns ?h ?a" by (rule vector_inv_owns)
  have el: "elems ?h ?a = [1, 2, 3]"
    using elems_example [of 3 "[1, 2, 3 :: int]" "[]" 3] by simp
  from copy_is_deep [of ?h ?a "0::int"] ok own
  obtain h' c where r: "SimpleVector_copy 0 ?h ?a = Inr (h', c)"
      "GetSize c = GetSize ?a" "GetCapacity c = GetCapacity ?a" "elems h' c = elems ?h ?a"
      "heap_ok h'" "owns h' c"
      "\<forall>ms h'' c'. mutate_all 0 h' c ms = Inr (h'', c') \<longrightarrow>
              blocks h'' (m_arr ?a) = blocks ?h (m_arr ?a) \<and> elems h'' ?a = elems ?h ?a"
    by blast
  have c: "h' = alloc_block ?h [1, 2, 3] \<and> c = \<lparr>m_arr = 2, m_size = 3, m_capacity = 3\<rparr>"
    using r(1) SimpleVector_copy_eq [OF ok own, of 0] el by simp
  let ?h1 = "set_block h' 2 [9, 2, 3]"
  have s1: "mutate 0 h' c (Call_assign_subscript 0 9) = Inr (?h1, c)"
    using c by (simp add: subscript_def ptr_add_def begin_it_def store_def block_def set_block_def)
  have ok1: "heap_ok ?h1" using r(5) c by (intro heap_ok_set_block) simp_all
  have inv1: "vector_inv ?h1 c" using c by (simp add: vector_inv_def storage_inv_def)
  have el1: "elems ?h1 c = [9, 2, 3]" using c by (simp add: elems_def)
  have ro: "refers_outside ?h1 c (Outside 4) 4" by (simp add: refers_outside_def)
  obtain h'' c' where p: "PushBack 0 ?h1 c (Outside 4) = Inr (h'', c')"
      "elems h'' c' = elems ?h1 c @ [4]"
    using PushBack_correct [OF ok1 inv1 ro, of 0] by blast
  have m: "mutate_all 0 h' c ?ms = Inr (h'', c')"
    using s1 p(1) by simp
  have e: "elems h'' ?a = [1, 2, 3]" using r(7) m el by metis
  have g: "GetSize c = 3" "GetCapacity c = 3" "elems h' c = [1, 2, 3]"
    using r(2,3,4) el by (simp_all add: GetSize_def GetCapacity_def)
  have e2: "elems h'' c' = [9, 2, 3, 4]" using p(2) el1 by simp
  have "\<exists>h' c h'' c'. SimpleVector_copy 0 ?h ?a = Inr (h', c)
        \<and> GetSize c = 3 \<and> GetCapacity c = 3 \<and> elems h' c = [1, 2, 3]
        \<and> mutate_all 0 h' c ?ms = Inr (h'', c')
        \<and> elems h'' c' = [9, 2, 3, 4]
        \<and> elems h'' ?a = [1, 2, 3]"
    using r(1) g m e2 e by (intro exI [of _ h'] exI [of _ c] exI [of _ h''] exI [of _ c'] conjI)
  then show ?thesis using ok own by (intro conjI)
qed

end
